theory Spec2Isabelle
  imports Complex_Main "HOL-Library.AList"
begin

section \<open>Python strings\<close>

text \<open>
  A Python \<open>str\<close> is modelled by an Isabelle \<open>string\<close> whose characters are the code
  points 0 to 255 (Latin-1). On these, \<open>lower\<close>, the whitespace test of \<open>str.strip\<close>
  and of \<open>\s\<close>, the digits of \<open>\d\<close> and the word characters of \<open>\w\<close> are what Python
  computes. \<open>upper\<close> is what Python computes, with the sharp s (223) becoming \<open>SS\<close>,
  except at the two small letters whose capitals are not among the 256 characters: the
  micro sign (181, capital U+039C) and the y with diaeresis (255, capital U+0178) stay
  in place. The program asks of an upper-cased text only whether it contains or begins
  with a word of ASCII letters, and strips it; neither capital is an ASCII letter or
  whitespace, and neither is the small letter.
\<close>

definition is_ascii_lower :: "char \<Rightarrow> bool" where
  "is_ascii_lower c = (97 \<le> (of_char c :: nat) \<and> (of_char c :: nat) \<le> 122)"

definition is_ascii_upper :: "char \<Rightarrow> bool" where
  "is_ascii_upper c = (65 \<le> (of_char c :: nat) \<and> (of_char c :: nat) \<le> 90)"

text \<open>The accented letters of Latin-1; 215 and 247 are the multiplication and division signs.\<close>

definition is_latin1_lower :: "char \<Rightarrow> bool" where
  "is_latin1_lower c =
     (224 \<le> (of_char c :: nat) \<and> (of_char c :: nat) \<le> 254 \<and> (of_char c :: nat) \<noteq> 247)"

definition is_latin1_upper :: "char \<Rightarrow> bool" where
  "is_latin1_upper c =
     (192 \<le> (of_char c :: nat) \<and> (of_char c :: nat) \<le> 222 \<and> (of_char c :: nat) \<noteq> 215)"

definition upper_chars :: "char \<Rightarrow> string" where
  "upper_chars c =
     (if is_ascii_lower c \<or> is_latin1_lower c then [char_of ((of_char c :: nat) - 32)]
      else if (of_char c :: nat) = 223 then ''SS''
      else [c])"

definition lower_char :: "char \<Rightarrow> char" where
  "lower_char c =
     (if is_ascii_upper c \<or> is_latin1_upper c then char_of ((of_char c :: nat) + 32) else c)"

definition upper :: "string \<Rightarrow> string" where
  "upper s = concat (map upper_chars s)"

definition lower :: "string \<Rightarrow> string" where
  "lower s = map lower_char s"

text \<open>
  \<open>str.isspace\<close> on the 256 characters: tab to carriage return, the separators 28 to
  31, the space, the next-line control (133) and the no-break space (160).
\<close>

definition is_space :: "char \<Rightarrow> bool" where
  "is_space c = ((9 \<le> (of_char c :: nat) \<and> (of_char c :: nat) \<le> 13)
                 \<or> (28 \<le> (of_char c :: nat) \<and> (of_char c :: nat) \<le> 32)
                 \<or> (of_char c :: nat) = 133 \<or> (of_char c :: nat) = 160)"

definition strip :: "string \<Rightarrow> string" where
  "strip s = rev (dropWhile is_space (rev (dropWhile is_space s)))"

fun startswith :: "string \<Rightarrow> string \<Rightarrow> bool" where
  "startswith s [] = True"
| "startswith [] (p # ps) = False"
| "startswith (c # cs) (p # ps) = (c = p \<and> startswith cs ps)"

definition endswith :: "string \<Rightarrow> string \<Rightarrow> bool" where
  "endswith s p = startswith (rev s) (rev p)"

text \<open>\<open>str_in k s\<close> is Python's \<open>k in s\<close> on strings: \<open>k\<close> is a contiguous part of \<open>s\<close>.\<close>

fun str_in :: "string \<Rightarrow> string \<Rightarrow> bool" where
  "str_in k [] = (k = [])"
| "str_in k (c # cs) = (startswith (c # cs) k \<or> str_in k cs)"

text \<open>\<open>join sep xs\<close> is \<open>sep.join(xs)\<close>.\<close>

fun join :: "string \<Rightarrow> string list \<Rightarrow> string" where
  "join sep [] = []"
| "join sep [x] = x"
| "join sep (x # y # ys) = x @ sep @ join sep (y # ys)"

datatype py_error = IndexError

section \<open>The safety gate and statement execution (advanced\_query\_builder.py)\<close>

definition dangerous_keywords :: "string list" where
  "dangerous_keywords =
     [''DROP'', ''DELETE'', ''UPDATE'', ''INSERT'', ''ALTER'',
      ''CREATE'', ''TRUNCATE'', ''GRANT'', ''REVOKE'']"

definition is_safe_query :: "string \<Rightarrow> bool" where
  "is_safe_query sql =
     (let sql_upper = strip (upper sql) in
      if list_ex (\<lambda>keyword. str_in keyword sql_upper) dangerous_keywords then False
      else if \<not> startswith sql_upper ''SELECT'' then False
      else True)"

text \<open>
  The execution collaborator: a database answers a statement with a result (column names,
  rows and a row count) or raises. The list of statements issued so far is threaded
  through every function that calls \<open>session.execute\<close>, so that what reaches the
  database is part of the result.
\<close>

datatype cell = CNull | CNum real | CText string

datatype db_reply =
    DbRaise string
  | DbResult "string list" "cell list list" int

type_synonym database = "string \<Rightarrow> db_reply"

text \<open>\<open>result.scalar()\<close>: the first column of the first row, \<open>None\<close> without a row.\<close>

fun scalar :: "string list \<Rightarrow> cell list list \<Rightarrow> cell" where
  "scalar cols [] = CNull"
| "scalar cols ([] # rs) = CNull"
| "scalar cols ((v # vs) # rs) = v"

text \<open>
  \<open>count > 10000\<close>: comparing \<open>None\<close> or a string with a number raises \<open>TypeError\<close>,
  which the \<open>except\<close> of the loop body swallows: the table is not counted as large.
\<close>

fun exceeds_10000 :: "cell \<Rightarrow> bool" where
  "exceeds_10000 (CNum n) = (n > 10000)"
| "exceeds_10000 _ = False"

fun identify_large_tables ::
  "database \<Rightarrow> string list \<Rightarrow> string list \<Rightarrow> string list \<times> string list" where
  "identify_large_tables db [] issued = ([], issued)"
| "identify_large_tables db (table # tables) issued =
     (let count_query = ''SELECT COUNT(*) FROM '' @ table;
          issued1 = issued @ [count_query];
          is_large = (case db count_query of
                        DbRaise e \<Rightarrow> False
                      | DbResult cols rows rc \<Rightarrow> exceeds_10000 (scalar cols rows));
          (large, issued2) = identify_large_tables db tables issued1
      in (if is_large then table # large else large, issued2))"

definition add_index_hints :: "string \<Rightarrow> string list \<Rightarrow> string" where
  "add_index_hints sql tables = sql"

definition optimize_query ::
  "database \<Rightarrow> string \<Rightarrow> string list \<Rightarrow> string list \<Rightarrow> string \<times> string list" where
  "optimize_query db sql tables issued =
     (if \<not> str_in ''LIMIT'' (upper sql) \<and> \<not> str_in ''COUNT('' (upper sql) then
        (let (large_tables, issued1) = identify_large_tables db tables issued;
             optimized = (if large_tables \<noteq> [] then sql @ '' LIMIT 100'' else sql)
         in (add_index_hints optimized tables, issued1))
      else (add_index_hints sql tables, issued))"

datatype exec_result =
    Failure string "string option"
  | SuccessData "cell list list" "string list" nat string
  | SuccessModification int string

text \<open>
  \<open>execute_generated_sql\<close> returns its result dictionary together with the statements
  issued. \<open>Failure error sql_attempted\<close> is \<open>{'success': False, ...}\<close>; the rejection
  by the safety check carries no \<open>sql_attempted\<close>. An exception of the database, of
  whatever call, is the reply \<open>DbRaise\<close> to the statement; the \<open>except\<close> clause turns
  it into a failure that names the statement attempted.
\<close>

definition execute_generated_sql ::
  "database \<Rightarrow> string \<Rightarrow> string list \<Rightarrow> string list \<Rightarrow> exec_result \<times> string list" where
  "execute_generated_sql db sql_query involved_tables issued =
     (if \<not> is_safe_query sql_query then
        (Failure ''Query contains potentially unsafe operations'' None, issued)
      else
        (let (optimized_sql, issued1) = optimize_query db sql_query involved_tables issued;
             issued2 = issued1 @ [optimized_sql]
         in case db optimized_sql of
              DbRaise e \<Rightarrow> (Failure e (Some sql_query), issued2)
            | DbResult cols rows rc \<Rightarrow>
                if startswith (upper (strip optimized_sql)) ''SELECT''
                then (SuccessData rows cols (length rows) optimized_sql, issued2)
                else (SuccessModification rc optimized_sql, issued2)))"

section \<open>Python floats\<close>

text \<open>
  A Python float is a binary64 number. The model holds its exact value as a real number
  and rounds the result of an operation to the nearest binary64 number, a tie going to
  the even significand, as the hardware does. \<open>binary_exponent\<close> is the power of two
  at or below a positive number; the rounding covers the normal range (no overflow and
  no subnormal numbers), which the numbers of this program never leave.
\<close>

primrec scale_exponent :: "nat \<Rightarrow> real \<Rightarrow> int" where
  "scale_exponent 0 x = 0"
| "scale_exponent (Suc fuel) x =
     (if 2 \<le> x then 1 + scale_exponent fuel (x / 2)
      else if x < 1 then scale_exponent fuel (2 * x) - 1
      else 0)"

definition binary_exponent :: "real \<Rightarrow> int" where
  "binary_exponent x = scale_exponent 1100 x"

definition round_half_even :: "real \<Rightarrow> int" where
  "round_half_even q =
     (let f = \<lfloor>q\<rfloor>; r = q - of_int f
      in if r < 1 / 2 then f
         else if 1 / 2 < r then f + 1
         else if even f then f else f + 1)"

definition round_binary64 :: "real \<Rightarrow> real" where
  "round_binary64 x =
     (if x = 0 then 0
      else (let m = \<bar>x\<bar>;
                ulp = 2 powi (binary_exponent m - 52)
            in sgn x * (of_int (round_half_even (m / ulp)) * ulp)))"

text \<open>A decimal literal of the source is the binary64 number nearest to it.\<close>

definition float_literal :: "real \<Rightarrow> real" where
  "float_literal x = round_binary64 x"

definition float_add :: "real \<Rightarrow> real \<Rightarrow> real" where
  "float_add x y = round_binary64 (x + y)"


section \<open>The schema analyzer (schema\_analyzer.py)\<close>

text \<open>
  The metadata source is the inspector: the table names in catalogue order, and for a
  table name its columns and its declared foreign keys. The inspector answers every
  call; a database that cannot be introspected is outside the model.
\<close>

record column =
  c_name :: string
  c_type :: string
  c_primary_key :: bool

record foreign_key =
  constrained_columns :: "string list"
  referred_table :: string
  referred_columns :: "string list"

record inspector =
  get_table_names :: "string list"
  get_columns :: "string \<Rightarrow> column list"
  get_foreign_keys :: "string \<Rightarrow> foreign_key list"

subsection \<open>The relationship graph\<close>

text \<open>
  The graph is an undirected \<open>networkx.Graph\<close>: a dictionary from a node to the
  dictionary of its neighbours, each neighbour with the attributes of the edge. Both
  dictionaries keep insertion order, so they are association lists here; \<open>AList.update\<close>
  overwrites the value of a key in place and appends a new key, as a Python dictionary
  does. Every edge of this program is added with the same three attributes.
\<close>

datatype relationship_kind = Foreign_key | Implicit

record edge_data =
  relationship_type :: relationship_kind
  local_columns :: "string list"
  foreign_columns :: "string list"

type_synonym graph = "(string \<times> (string \<times> edge_data) list) list"

definition add_node :: "graph \<Rightarrow> string \<Rightarrow> graph" where
  "add_node g n = (if n \<in> fst ` set g then g else g @ [(n, [])])"

text \<open>
  \<open>add_edge\<close> adds the two nodes when they are missing, then stores the attributes under
  \<open>adj[u][v]\<close> and under \<open>adj[v][u]\<close>.
\<close>

definition add_edge :: "graph \<Rightarrow> string \<Rightarrow> string \<Rightarrow> edge_data \<Rightarrow> graph" where
  "add_edge g u v d =
     (let g1 = add_node (add_node g u) v;
          g2 = AList.map_entry u (AList.update v d) g1
      in AList.map_entry v (AList.update u d) g2)"

definition has_edge :: "graph \<Rightarrow> string \<Rightarrow> string \<Rightarrow> bool" where
  "has_edge g u v = (case map_of g u of None \<Rightarrow> False | Some nbrs \<Rightarrow> v \<in> fst ` set nbrs)"

definition get_edge_data :: "graph \<Rightarrow> string \<Rightarrow> string \<Rightarrow> edge_data option" where
  "get_edge_data g u v = (case map_of g u of None \<Rightarrow> None | Some nbrs \<Rightarrow> map_of nbrs v)"

text \<open>\<open>neighbors\<close> raises for a node that is not in the graph: \<open>None\<close>.\<close>

definition neighbors :: "graph \<Rightarrow> string \<Rightarrow> string list option" where
  "neighbors g n = map_option (map fst) (map_of g n)"

text \<open>
  Every relationship edge stored between \<open>u\<close> and \<open>v\<close>, read off the adjacency
  structure entry by entry.
\<close>

definition edges_between :: "graph \<Rightarrow> string \<Rightarrow> string \<Rightarrow> edge_data list" where
  "edges_between g u v =
     concat (map (\<lambda>(n, nbrs). if n = u then map snd (filter (\<lambda>(m, d). m = v) nbrs) else []) g)"

definition fk_edges_of_table :: "inspector \<Rightarrow> graph \<Rightarrow> string \<Rightarrow> graph" where
  "fk_edges_of_table insp g table =
     foldl (\<lambda>g fk. add_edge g table (referred_table fk)
                      \<lparr>relationship_type = Foreign_key,
                       local_columns = constrained_columns fk,
                       foreign_columns = referred_columns fk\<rparr>)
           g (get_foreign_keys insp table)"

text \<open>
  The candidates for the table a column \<open>x_id\<close> points to: \<open>x\<close>, \<open>x + 's'\<close>,
  \<open>x + 'es'\<close>, and \<open>x[:-1] + 'ies'\<close> when \<open>x\<close> ends in \<open>y\<close> (\<open>None\<close> otherwise).
\<close>

definition potential_tables :: "string \<Rightarrow> string option list" where
  "potential_tables col_name =
     (let potential_table = take (length col_name - 3) col_name in
      [Some potential_table,
       Some (potential_table @ ''s''),
       Some (potential_table @ ''es''),
       if endswith potential_table ''y'' then Some (butlast potential_table @ ''ies'') else None])"

text \<open>
  The inner loop over the candidates: the first candidate that is a non-empty string
  and a table name ends the loop, with an edge added only if the graph has none between
  the two tables.
\<close>

fun try_potential_tables ::
  "string list \<Rightarrow> string \<Rightarrow> string \<Rightarrow> string option list \<Rightarrow> graph \<Rightarrow> graph" where
  "try_potential_tables tables table col_name [] g = g"
| "try_potential_tables tables table col_name (None # rest) g =
     try_potential_tables tables table col_name rest g"
| "try_potential_tables tables table col_name (Some pot_table # rest) g =
     (if pot_table \<noteq> [] \<and> pot_table \<in> set tables then
        (if \<not> has_edge g table pot_table then
           add_edge g table pot_table
             \<lparr>relationship_type = Implicit,
              local_columns = [col_name],
              foreign_columns = [''id'']\<rparr>
         else g)
      else try_potential_tables tables table col_name rest g)"

definition detect_implicit_column :: "inspector \<Rightarrow> string \<Rightarrow> graph \<Rightarrow> column \<Rightarrow> graph" where
  "detect_implicit_column insp table g col =
     (let col_name = lower (c_name col) in
      if endswith col_name ''_id''
      then try_potential_tables (get_table_names insp) table col_name
             (potential_tables col_name) g
      else g)"

definition detect_implicit_relationships :: "inspector \<Rightarrow> graph \<Rightarrow> graph" where
  "detect_implicit_relationships insp g =
     foldl (\<lambda>g table. foldl (detect_implicit_column insp table) g (get_columns insp table))
           g (get_table_names insp)"

text \<open>
  \<open>_build_relationship_graph\<close>: the nodes, then the foreign-key edges (the graph
  \<open>build_fk_graph\<close>), then the naming-pattern edges on top of them.
\<close>

definition build_fk_graph :: "inspector \<Rightarrow> graph" where
  "build_fk_graph insp =
     (let tables = get_table_names insp;
          g1 = foldl add_node [] tables
      in foldl (fk_edges_of_table insp) g1 tables)"

definition build_relationship_graph :: "inspector \<Rightarrow> graph" where
  "build_relationship_graph insp = detect_implicit_relationships insp (build_fk_graph insp)"

subsection \<open>Table aliases\<close>

text \<open>
  \<open>re.split(r'[_\s]+', s)\<close>: the pieces between the runs of underscores and
  whitespace; a run at the start or at the end of \<open>s\<close> leaves an empty piece there.
  \<open>split_from cur in_run s\<close> holds the piece read so far and whether the last character
  was a separator.
\<close>

definition is_separator :: "char \<Rightarrow> bool" where
  "is_separator c = (c = CHR ''_'' \<or> is_space c)"

fun split_from :: "string \<Rightarrow> bool \<Rightarrow> string \<Rightarrow> string list" where
  "split_from cur in_run [] = [cur]"
| "split_from cur in_run (c # cs) =
     (if is_separator c then
        (if in_run then split_from [] True cs else cur # split_from [] True cs)
      else split_from (cur @ [c]) False cs)"

definition split_words :: "string \<Rightarrow> string list" where
  "split_words s = split_from [] False s"

definition business_aliases :: "(string \<times> string list) list" where
  "business_aliases =
     [(''customers'', [''cust'', ''customer'', ''client'']),
      (''products'', [''prod'', ''product'', ''item'']),
      (''orders'', [''ord'', ''order'', ''purchase'']),
      (''employees'', [''emp'', ''employee'', ''staff'']),
      (''transactions'', [''trans'', ''transaction'', ''txn'']),
      (''invoices'', [''inv'', ''invoice'', ''bill'']),
      (''payments'', [''pay'', ''payment'', ''pmt'']),
      (''addresses'', [''addr'', ''address'', ''location''])]"

text \<open>The cleaned name of a table: lower-cased, without \<open>tbl_\<close> in front and \<open>_table\<close> behind.\<close>

definition clean_name :: "string \<Rightarrow> string" where
  "clean_name table =
     (let c0 = lower table;
          c1 = (if startswith c0 ''tbl_'' then drop 4 c0 else c0)
      in if endswith c1 ''_table'' then take (length c1 - 6) c1 else c1)"

text \<open>
  The abbreviations of a cleaned name longer than four characters: its first four
  characters and, for several words, the first letters of the words. \<open>word[0]\<close> raises
  \<open>IndexError\<close> on an empty word.
\<close>

definition abbreviations :: "string \<Rightarrow> py_error + string list" where
  "abbreviations cn =
     (if length cn > 4 then
        (let words = split_words cn in
         if length words > 1 then
           (if [] \<in> set words then Inl IndexError
            else Inr [take 4 cn, map hd words])
         else Inr [take 4 cn])
      else Inr [])"

text \<open>
  The body of the loop of \<open>_detect_table_aliases\<close> for one table. \<open>list(set(aliases))\<close>
  removes the duplicates and leaves the order to the hash values; \<open>remdups\<close> fixes one
  order.
\<close>

definition aliases_of_table :: "string \<Rightarrow> py_error + string list" where
  "aliases_of_table table =
     (let cn = clean_name table in
      case abbreviations cn of
        Inl e \<Rightarrow> Inl e
      | Inr abbrs \<Rightarrow>
          Inr (remdups (abbrs @
                 concat (map snd (filter (\<lambda>(full_name, alias_list).
                                            str_in full_name cn \<or> str_in cn full_name)
                                         business_aliases)))))"

fun detect_table_aliases_loop ::
  "string list \<Rightarrow> (string \<times> string list) list \<Rightarrow> py_error + (string \<times> string list) list" where
  "detect_table_aliases_loop [] table_aliases = Inr table_aliases"
| "detect_table_aliases_loop (table # tables) table_aliases =
     (case aliases_of_table table of
        Inl e \<Rightarrow> Inl e
      | Inr aliases \<Rightarrow> detect_table_aliases_loop tables (AList.update table aliases table_aliases))"

definition detect_table_aliases :: "inspector \<Rightarrow> py_error + (string \<times> string list) list" where
  "detect_table_aliases insp = detect_table_aliases_loop (get_table_names insp) []"

subsection \<open>Relationships between two tables\<close>

record join_step =
  from_table :: string
  to_table :: string
  join_condition :: edge_data

datatype relationship =
    Direct "string list" edge_data
  | Indirect "string list" "join_step list"

fun get_path_join_info :: "graph \<Rightarrow> string list \<Rightarrow> join_step list" where
  "get_path_join_info g (table1 # table2 # rest) =
     (case get_edge_data g table1 table2 of
        Some d \<Rightarrow> [\<lparr>from_table = table1, to_table = table2, join_condition = d\<rparr>]
      | None \<Rightarrow> [])
     @ get_path_join_info g (table2 # rest)"
| "get_path_join_info g path = []"

text \<open>
  \<open>nx.shortest_path\<close> belongs to the graph library; it is a parameter of the model:
  \<open>None\<close> when the library raises (no path, or a node that is not in the graph), both of
  which \<open>find_relationships\<close> catches.
\<close>

type_synonym path_finder = "graph \<Rightarrow> string \<Rightarrow> string \<Rightarrow> string list option"

definition find_relationships ::
  "path_finder \<Rightarrow> graph \<Rightarrow> string \<Rightarrow> string \<Rightarrow> relationship list" where
  "find_relationships shortest_path g table1 table2 =
     (let direct = (case get_edge_data g table1 table2 of
                      Some d \<Rightarrow> [Direct [table1, table2] d]
                    | None \<Rightarrow> [])
      in case shortest_path g table1 table2 of
           None \<Rightarrow> direct
         | Some path \<Rightarrow>
             if length path > 2
             then direct @ [Indirect path (get_path_join_info g path)]
             else direct)"

subsection \<open>Related tables\<close>

text \<open>
  The loop over the neighbours in \<open>get_related_tables\<close>; an exception inside it ends the
  loop and leaves what was collected.
\<close>

fun indirect_tables ::
  "graph \<Rightarrow> string \<Rightarrow> string list \<Rightarrow> string list \<Rightarrow> string list \<Rightarrow> string list" where
  "indirect_tables g table direct [] indirect = indirect"
| "indirect_tables g table direct (neighbor # rest) indirect =
     (case neighbors g neighbor of
        None \<Rightarrow> indirect
      | Some second_level \<Rightarrow>
          indirect_tables g table direct rest
            (indirect @ filter (\<lambda>second_table. second_table \<noteq> table
                                                \<and> second_table \<notin> set direct) second_level))"

definition get_related_tables :: "graph \<Rightarrow> string \<Rightarrow> int \<Rightarrow> string list \<times> string list" where
  "get_related_tables g table max_depth =
     (case neighbors g table of
        None \<Rightarrow> ([], [])
      | Some nbrs \<Rightarrow>
          (nbrs, if max_depth > 1 then indirect_tables g table nbrs nbrs [] else []))"

subsection \<open>Column suggestions\<close>

definition intent_column_mapping :: "(string \<times> string list) list" where
  "intent_column_mapping =
     [(''count'', [''id'']),
      (''list'', [''id'', ''name'', ''title'', ''description'']),
      (''search'', [''name'', ''title'', ''description'', ''email'']),
      (''financial'', [''amount'', ''price'', ''cost'', ''total'', ''value'']),
      (''temporal'', [''created_at'', ''updated_at'', ''date'', ''timestamp'']),
      (''status'', [''status'', ''state'', ''active'', ''enabled''])]"

definition suggest_columns_for_query :: "inspector \<Rightarrow> string list \<Rightarrow> string \<Rightarrow> string list" where
  "suggest_columns_for_query insp tables intent =
     (let relevant_patterns = (case map_of intent_column_mapping intent of
                                 Some ps \<Rightarrow> ps
                               | None \<Rightarrow> [''id'', ''name''])
      in concat (map (\<lambda>table.
           concat (map (\<lambda>col.
             concat (map (\<lambda>pattern.
               if str_in pattern (lower (c_name col))
               then [table @ ''.'' @ c_name col] else [])
               relevant_patterns))
             (get_columns insp table)))
           tables))"

subsection \<open>Well-formed graphs and the example schemas\<close>

text \<open>
  A graph is well formed when no node is listed twice, no node lists a neighbour twice,
  and the attributes read from either end of an edge are the same.
\<close>

definition graph_ok :: "graph \<Rightarrow> bool" where
  "graph_ok g = (distinct (map fst g)
                 \<and> (\<forall>nbrs \<in> snd ` set g. distinct (map fst nbrs))
                 \<and> (\<forall>u v. get_edge_data g u v = get_edge_data g v u))"

text \<open>Every edge of the graph is of the foreign-key kind.\<close>

definition all_foreign_key :: "graph \<Rightarrow> bool" where
  "all_foreign_key g =
     (\<forall>u v d. get_edge_data g u v = Some d \<longrightarrow> relationship_type d = Foreign_key)"

text \<open>
  The example schemas: \<open>orders\<close> and \<open>customers\<close> with a column \<open>customer_id\<close> in
  \<open>orders\<close>, once without a declared foreign key and once with one.
\<close>

definition customer_edge :: edge_data where
  "customer_edge = \<lparr>relationship_type = Implicit,
                    local_columns = [''customer_id''],
                    foreign_columns = [''id'']\<rparr>"

definition insp_declared_fk :: inspector where
  "insp_declared_fk =
     \<lparr>get_table_names = [''orders'', ''customers''],
      get_columns = (\<lambda>t.
        if t = ''orders'' then
          [\<lparr>c_name = ''id'', c_type = ''INTEGER'', c_primary_key = True\<rparr>,
           \<lparr>c_name = ''customer_id'', c_type = ''INTEGER'', c_primary_key = False\<rparr>]
        else if t = ''customers'' then
          [\<lparr>c_name = ''id'', c_type = ''INTEGER'', c_primary_key = True\<rparr>]
        else []),
      get_foreign_keys = (\<lambda>t.
        if t = ''orders'' then
          [\<lparr>constrained_columns = [''customer_id''], referred_table = ''customers'',
            referred_columns = [''id'']\<rparr>]
        else [])\<rparr>"

definition customer_edge_or_none :: "graph \<Rightarrow> bool" where
  "customer_edge_or_none g =
     (get_edge_data g ''orders'' ''customers'' = None
      \<or> get_edge_data g ''orders'' ''customers'' = Some customer_edge)"

definition insp_orders_customers :: inspector where
  "insp_orders_customers =
     \<lparr>get_table_names = [''orders'', ''customers''],
      get_columns = (\<lambda>t.
        if t = ''orders'' then
          [\<lparr>c_name = ''id'', c_type = ''INTEGER'', c_primary_key = True\<rparr>,
           \<lparr>c_name = ''customer_id'', c_type = ''INTEGER'', c_primary_key = False\<rparr>,
           \<lparr>c_name = ''total'', c_type = ''FLOAT'', c_primary_key = False\<rparr>]
        else if t = ''customers'' then
          [\<lparr>c_name = ''id'', c_type = ''INTEGER'', c_primary_key = True\<rparr>,
           \<lparr>c_name = ''name'', c_type = ''VARCHAR'', c_primary_key = False\<rparr>]
        else []),
      get_foreign_keys = (\<lambda>t. [])\<rparr>"

definition declared_edge :: edge_data where
  "declared_edge = \<lparr>relationship_type = Foreign_key,
                    local_columns = [''customer_id''],
                    foreign_columns = [''id'']\<rparr>"

text \<open>
  Four more schemas on the two tables, none with a declared foreign key: one lists
  \<open>customers\<close> before \<open>orders\<close>; one has a column \<open>customers_id\<close> in \<open>orders\<close> before
  \<open>customer_id\<close>; two list \<open>customers\<close> first and have a column \<open>order_id\<close> or
  \<open>orders_id\<close> in it.
\<close>

definition insp_sorted_catalogue :: inspector where
  "insp_sorted_catalogue =
     \<lparr>get_table_names = [''customers'', ''orders''],
      get_columns = (\<lambda>t.
        if t = ''orders'' then
          [\<lparr>c_name = ''id'', c_type = ''INTEGER'', c_primary_key = True\<rparr>,
           \<lparr>c_name = ''customer_id'', c_type = ''INTEGER'', c_primary_key = False\<rparr>]
        else if t = ''customers'' then
          [\<lparr>c_name = ''id'', c_type = ''INTEGER'', c_primary_key = True\<rparr>,
           \<lparr>c_name = ''name'', c_type = ''VARCHAR'', c_primary_key = False\<rparr>]
        else []),
      get_foreign_keys = (\<lambda>t. [])\<rparr>"

definition insp_plural_column_first :: inspector where
  "insp_plural_column_first =
     \<lparr>get_table_names = [''orders'', ''customers''],
      get_columns = (\<lambda>t.
        if t = ''orders'' then
          [\<lparr>c_name = ''id'', c_type = ''INTEGER'', c_primary_key = True\<rparr>,
           \<lparr>c_name = ''customers_id'', c_type = ''INTEGER'', c_primary_key = False\<rparr>,
           \<lparr>c_name = ''customer_id'', c_type = ''INTEGER'', c_primary_key = False\<rparr>]
        else if t = ''customers'' then
          [\<lparr>c_name = ''id'', c_type = ''INTEGER'', c_primary_key = True\<rparr>]
        else []),
      get_foreign_keys = (\<lambda>t. [])\<rparr>"

definition insp_back_reference :: inspector where
  "insp_back_reference =
     \<lparr>get_table_names = [''customers'', ''orders''],
      get_columns = (\<lambda>t.
        if t = ''orders'' then
          [\<lparr>c_name = ''id'', c_type = ''INTEGER'', c_primary_key = True\<rparr>,
           \<lparr>c_name = ''customer_id'', c_type = ''INTEGER'', c_primary_key = False\<rparr>]
        else if t = ''customers'' then
          [\<lparr>c_name = ''id'', c_type = ''INTEGER'', c_primary_key = True\<rparr>,
           \<lparr>c_name = ''order_id'', c_type = ''INTEGER'', c_primary_key = False\<rparr>]
        else []),
      get_foreign_keys = (\<lambda>t. [])\<rparr>"

definition insp_back_reference_plural :: inspector where
  "insp_back_reference_plural =
     \<lparr>get_table_names = [''customers'', ''orders''],
      get_columns = (\<lambda>t.
        if t = ''orders'' then
          [\<lparr>c_name = ''id'', c_type = ''INTEGER'', c_primary_key = True\<rparr>,
           \<lparr>c_name = ''customer_id'', c_type = ''INTEGER'', c_primary_key = False\<rparr>]
        else if t = ''customers'' then
          [\<lparr>c_name = ''id'', c_type = ''INTEGER'', c_primary_key = True\<rparr>,
           \<lparr>c_name = ''orders_id'', c_type = ''INTEGER'', c_primary_key = False\<rparr>]
        else []),
      get_foreign_keys = (\<lambda>t. [])\<rparr>"

text \<open>
  A schema with four tables in which \<open>orders\<close> refers to \<open>customers\<close> and to \<open>products\<close>,
  and both of these refer to \<open>regions\<close>; and a schema with the tables \<open>tbl_widgets\<close>
  and \<open>tbl_customer\<close>.
\<close>

definition insp_diamond :: inspector where
  "insp_diamond =
     \<lparr>get_table_names = [''orders'', ''customers'', ''products'', ''regions''],
      get_columns = (\<lambda>t. [\<lparr>c_name = ''id'', c_type = ''INTEGER'', c_primary_key = True\<rparr>]),
      get_foreign_keys = (\<lambda>t.
        if t = ''orders'' then
          [\<lparr>constrained_columns = [''customer_ref''], referred_table = ''customers'',
            referred_columns = [''id'']\<rparr>,
           \<lparr>constrained_columns = [''product_ref''], referred_table = ''products'',
            referred_columns = [''id'']\<rparr>]
        else if t = ''customers'' \<or> t = ''products'' then
          [\<lparr>constrained_columns = [''region_ref''], referred_table = ''regions'',
            referred_columns = [''id'']\<rparr>]
        else [])\<rparr>"

definition insp_widgets :: inspector where
  "insp_widgets =
     \<lparr>get_table_names = [''tbl_widgets'', ''tbl_customer''],
      get_columns = (\<lambda>t. [\<lparr>c_name = ''id'', c_type = ''INTEGER'', c_primary_key = True\<rparr>]),
      get_foreign_keys = (\<lambda>t. [])\<rparr>"

section \<open>The query generator (ai\_query\_generator.py)\<close>

subsection \<open>The analysis of a request\<close>

datatype entity_type = Table | Column | Value | Number

text \<open>
  An entity is a dictionary with the keys \<open>type\<close>, \<open>value\<close> and \<open>confidence\<close>; a table
  entity has \<open>original\<close> as well and a column entity has \<open>table\<close>.
\<close>

record entity =
  e_type :: entity_type
  e_value :: string
  e_original :: "string option"
  e_table :: "string option"
  e_confidence :: real

text \<open>
  The analysis dictionary. The key \<open>aggregation\<close> is absent until an aggregation word
  is found. The confidence is a Python float: its literals are \<open>float_literal\<close>s and
  \<open>+=\<close> is \<open>float_add\<close>.
\<close>

record analysis =
  a_original_query :: string
  a_intent :: string
  a_entities :: "entity list"
  a_keywords :: "string list"
  a_confidence :: real
  a_aggregation :: "string option"

text \<open>
  The keyword lists of \<open>_load_query_patterns\<close>, in the order of the dictionary. The
  templates stored beside them are read nowhere.
\<close>

definition query_patterns :: "(string \<times> string list) list" where
  "query_patterns =
     [(''count'', [''how many'', ''count'', ''total'', ''number of'']),
      (''list'', [''show'', ''list'', ''get'', ''display'', ''find'']),
      (''aggregate'', [''sum'', ''average'', ''max'', ''min'', ''total'']),
      (''group_by'', [''by'', ''group'', ''each'', ''per'']),
      (''join'', [''with'', ''and'', ''related'', ''associated''])]"

definition detect_keyword :: "string \<Rightarrow> string \<Rightarrow> analysis \<Rightarrow> string \<Rightarrow> analysis" where
  "detect_keyword query_lower intent_name a keyword =
     (if str_in keyword query_lower
      then a\<lparr>a_intent := intent_name,
             a_confidence := float_add (a_confidence a) (float_literal (2 / 10)),
             a_keywords := a_keywords a @ [keyword]\<rparr>
      else a)"

definition detect_intent :: "string \<Rightarrow> analysis \<Rightarrow> analysis" where
  "detect_intent query_lower a =
     foldl (\<lambda>a (intent_name, kws). foldl (detect_keyword query_lower intent_name) a kws)
           a query_patterns"

definition agg_functions :: "string list" where
  "agg_functions = [''count'', ''sum'', ''avg'', ''average'', ''max'', ''min'']"

definition detect_function :: "string \<Rightarrow> analysis \<Rightarrow> string \<Rightarrow> analysis" where
  "detect_function query_lower a func =
     (if str_in func query_lower then
        (if func \<in> set [''sum'', ''avg'', ''average'', ''max'', ''min'']
         then a\<lparr>a_aggregation := Some func, a_intent := ''aggregate''\<rparr>
         else a\<lparr>a_aggregation := Some func\<rparr>)
      else a)"

definition detect_aggregation :: "string \<Rightarrow> analysis \<Rightarrow> analysis" where
  "detect_aggregation query_lower a = foldl (detect_function query_lower) a agg_functions"

definition detect_grouping :: "string \<Rightarrow> analysis \<Rightarrow> analysis" where
  "detect_grouping query_lower a =
     (if list_ex (\<lambda>word. str_in word query_lower) [''by'', ''group'', ''each'', ''per'']
      then a\<lparr>a_intent := ''group_by''\<rparr>
      else a)"

subsection \<open>Entities\<close>

text \<open>
  \<open>re.findall(r"'([^']*)'|\"([^\"]*)\"", query)\<close>: at a quote character that has a
  closing partner of the same kind, the text between the two; the scan goes on behind
  the closing quote. A quote without a partner is passed over.
\<close>

fun split_at_quote :: "char \<Rightarrow> string \<Rightarrow> (string \<times> string) option" where
  "split_at_quote q [] = None"
| "split_at_quote q (c # cs) =
     (if c = q then Some ([], cs)
      else (case split_at_quote q cs of
              None \<Rightarrow> None
            | Some (inside, rest) \<Rightarrow> Some (c # inside, rest)))"

lemma split_at_quote_shorter:
  "split_at_quote q s = Some (inside, rest) \<Longrightarrow> length rest < length s"
  by (induction s arbitrary: inside) (auto split: if_splits option.splits)

function findall_quoted :: "string \<Rightarrow> string list" where
  "findall_quoted [] = []"
| "findall_quoted (c # cs) =
     (if c = CHR 0x27 \<or> c = CHR 0x22 then
        (case split_at_quote c cs of
           Some (inside, rest) \<Rightarrow> inside # findall_quoted rest
         | None \<Rightarrow> findall_quoted cs)
      else findall_quoted cs)"
  by pat_completeness auto
termination
  by (relation "measure length") (auto dest: split_at_quote_shorter)

text \<open>
  \<open>re.findall(r'\b\d+(?:\.\d+)?\b', query)\<close>: a run of digits that starts at a word
  boundary, with a fraction when a dot and digits follow and the fraction ends at a word
  boundary, and without it otherwise; a run that does not end at a word boundary is no
  number. \<open>prev_word\<close> says whether the character before the position is a word
  character.
\<close>

definition is_digit :: "char \<Rightarrow> bool" where
  "is_digit c = (48 \<le> (of_char c :: nat) \<and> (of_char c :: nat) \<le> 57)"

text \<open>
  \<open>\w\<close> on the 256 characters: the underscore and the characters for which
  \<open>str.isalnum\<close> is true, which beside the ASCII letters and digits are the ordinal
  indicators (170, 186), the superscript digits (178, 179, 185), the micro sign (181),
  the fractions (188 to 190) and the accented letters.
\<close>

definition is_word_char :: "char \<Rightarrow> bool" where
  "is_word_char c =
     (is_digit c \<or> is_ascii_lower c \<or> is_ascii_upper c \<or> c = CHR ''_''
      \<or> (of_char c :: nat) \<in> set [170, 178, 179, 181, 185, 186, 188, 189, 190]
      \<or> (192 \<le> (of_char c :: nat) \<and> (of_char c :: nat) \<noteq> 215 \<and> (of_char c :: nat) \<noteq> 247))"

function findall_numbers_from :: "bool \<Rightarrow> string \<Rightarrow> string list" where
  "findall_numbers_from prev_word [] = []"
| "findall_numbers_from prev_word (c # cs) =
     (if is_digit c \<and> \<not> prev_word then
        (let digits = c # takeWhile is_digit cs;
             r = dropWhile is_digit cs
         in case r of
              [] \<Rightarrow> [digits]
            | d # r' \<Rightarrow>
                if d = CHR ''.'' \<and> r' \<noteq> [] \<and> is_digit (hd r') then
                  (let fraction = takeWhile is_digit r';
                       r'' = dropWhile is_digit r'
                   in if r'' = [] \<or> \<not> is_word_char (hd r'')
                      then (digits @ ''.'' @ fraction) # findall_numbers_from True r''
                      else digits # findall_numbers_from True r)
                else if \<not> is_word_char d then digits # findall_numbers_from True r
                else findall_numbers_from True cs)
      else findall_numbers_from (is_word_char c) cs)"
  by pat_completeness auto
termination
proof (relation "measure (\<lambda>(p, s). length s)", goal_cases)
  case 1
  show ?case by simp
next
  case (2 prev_word c cs x xa x21 x22 xb xc)
  have a: "length (dropWhile is_digit x22) \<le> length x22" by (rule length_dropWhile_le)
  have b: "length (dropWhile is_digit cs) \<le> length cs" by (rule length_dropWhile_le)
  have "x21 # x22 = dropWhile is_digit cs" using 2 by simp
  then have "Suc (length x22) = length (dropWhile is_digit cs)" by (metis length_Cons)
  then show ?case using a b 2 by simp
next
  case (3 prev_word c cs x xa x21 x22 xb xc)
  have "length (dropWhile is_digit cs) \<le> length cs" by (rule length_dropWhile_le)
  then show ?case using 3 by simp
next
  case (4 prev_word c cs x xa x21 x22)
  have "length (dropWhile is_digit cs) \<le> length cs" by (rule length_dropWhile_le)
  then show ?case using 4 by simp
next
  case 5
  show ?case by simp
next
  case 6
  show ?case by simp
qed

definition findall_numbers :: "string \<Rightarrow> string list" where
  "findall_numbers s = findall_numbers_from False s"

definition table_entities :: "(string \<times> string list) list \<Rightarrow> string \<Rightarrow> string \<Rightarrow> entity list" where
  "table_entities table_aliases query_lower table =
     (if str_in (lower table) query_lower
      then [\<lparr>e_type = Table, e_value = table, e_original = Some table,
             e_table = None, e_confidence = float_literal (9 / 10)\<rparr>]
      else [])
     @ (case map_of table_aliases table of
          None \<Rightarrow> []
        | Some aliases \<Rightarrow>
            map (\<lambda>alias. \<lparr>e_type = Table, e_value = table, e_original = Some alias,
                           e_table = None, e_confidence = float_literal (8 / 10)\<rparr>)
                (filter (\<lambda>alias. str_in (lower alias) query_lower) aliases))"

definition column_entities :: "inspector \<Rightarrow> string \<Rightarrow> string \<Rightarrow> entity list" where
  "column_entities insp query_lower table =
     map (\<lambda>col. \<lparr>e_type = Column, e_value = c_name col, e_original = None,
                  e_table = Some table, e_confidence = float_literal (7 / 10)\<rparr>)
         (filter (\<lambda>col. str_in (lower (c_name col)) query_lower) (get_columns insp table))"

definition extract_entities ::
  "inspector \<Rightarrow> (string \<times> string list) list \<Rightarrow> string \<Rightarrow> entity list" where
  "extract_entities insp table_aliases query =
     (let query_lower = lower query;
          tables = get_table_names insp
      in concat (map (table_entities table_aliases query_lower) tables)
         @ concat (map (column_entities insp query_lower) tables)
         @ map (\<lambda>v. \<lparr>e_type = Value, e_value = v, e_original = None,
                      e_table = None, e_confidence = float_literal (9 / 10)\<rparr>)
               (findall_quoted query)
         @ map (\<lambda>num. \<lparr>e_type = Number, e_value = num, e_original = None,
                        e_table = None, e_confidence = float_literal (8 / 10)\<rparr>)
               (findall_numbers query))"

text \<open>
  \<open>_analyze_natural_query\<close>: the keyword loop, the entities, the aggregation loop and
  the grouping test, in this order.
\<close>

definition analyze_natural_query ::
  "inspector \<Rightarrow> (string \<times> string list) list \<Rightarrow> string \<Rightarrow> analysis" where
  "analyze_natural_query insp table_aliases query =
     (let query_lower = lower query;
          a0 = \<lparr>a_original_query = query, a_intent = ''list'', a_entities = [],
                a_keywords = [], a_confidence = float_literal (5 / 10),
                a_aggregation = None\<rparr>;
          a1 = detect_intent query_lower a0;
          a2 = a1\<lparr>a_entities := extract_entities insp table_aliases query\<rparr>;
          a3 = detect_aggregation query_lower a2
      in detect_grouping query_lower a3)"

subsection \<open>Joins\<close>

definition join_clause :: "string \<Rightarrow> string \<Rightarrow> string \<Rightarrow> string \<Rightarrow> string" where
  "join_clause table from_tbl local_col foreign_col =
     ''LEFT JOIN '' @ table @ '' ON '' @ from_tbl @ ''.'' @ local_col
       @ '' = '' @ table @ ''.'' @ foreign_col"

text \<open>
  The join of one edge: \<open>local_columns[0]\<close> and \<open>foreign_columns[0]\<close> raise
  \<open>IndexError\<close> on an empty list. Both keys are present in every edge of this program.
\<close>

definition edge_join :: "string \<Rightarrow> string \<Rightarrow> edge_data \<Rightarrow> py_error + string" where
  "edge_join table from_tbl d =
     (case local_columns d of
        [] \<Rightarrow> Inl IndexError
      | local_col # _ \<Rightarrow>
          (case foreign_columns d of
             [] \<Rightarrow> Inl IndexError
           | foreign_col # _ \<Rightarrow> Inr (join_clause table from_tbl local_col foreign_col)))"

text \<open>
  The loop over the hops of an indirect path: hop \<open>j\<close> reads \<open>join_info[j]\<close>, which
  raises \<open>IndexError\<close> when the list is shorter than the path needs.
\<close>

fun indirect_joins :: "string list \<Rightarrow> join_step list \<Rightarrow> string list \<Rightarrow> py_error + string list" where
  "indirect_joins (from_tbl # to_tbl # rest) [] joins = Inl IndexError"
| "indirect_joins (from_tbl # to_tbl # rest) (info # infos) joins =
     (case edge_join to_tbl from_tbl (join_condition info) of
        Inl e \<Rightarrow> Inl e
      | Inr j \<Rightarrow> indirect_joins (to_tbl # rest) infos (joins @ [j]))"
| "indirect_joins path infos joins = Inr joins"

fun build_joins_loop ::
  "path_finder \<Rightarrow> graph \<Rightarrow> string \<Rightarrow> string list \<Rightarrow> string list \<Rightarrow> py_error + string list" where
  "build_joins_loop shortest_path g main_table [] joins = Inr joins"
| "build_joins_loop shortest_path g main_table (table # rest) joins =
     (case find_relationships shortest_path g main_table table of
        [] \<Rightarrow> build_joins_loop shortest_path g main_table rest joins
      | Direct path d # _ \<Rightarrow>
          (case edge_join table main_table d of
             Inl e \<Rightarrow> Inl e
           | Inr j \<Rightarrow> build_joins_loop shortest_path g main_table rest (joins @ [j]))
      | Indirect path infos # _ \<Rightarrow>
          (case indirect_joins path infos joins of
             Inl e \<Rightarrow> Inl e
           | Inr joins' \<Rightarrow> build_joins_loop shortest_path g main_table rest joins'))"

definition build_joins :: "path_finder \<Rightarrow> graph \<Rightarrow> string list \<Rightarrow> py_error + string list" where
  "build_joins shortest_path g tables =
     (if length tables \<le> 1 then Inr []
      else build_joins_loop shortest_path g (hd tables) (tl tables) [])"

subsection \<open>Columns\<close>

definition mentioned_columns :: "analysis \<Rightarrow> string list \<Rightarrow> string list" where
  "mentioned_columns a tables =
     concat (map (\<lambda>e. if e_type e = Column
                       then [(case e_table e of
                                Some table \<Rightarrow> table
                              | None \<Rightarrow> (case tables of [] \<Rightarrow> [] | t # _ \<Rightarrow> t))
                             @ ''.'' @ e_value e]
                       else [])
                 (a_entities a))"

text \<open>
  The primary-key loop: for each table the first column that is flagged as primary key
  or is called \<open>id\<close> or \<open>pk\<close> is put in front of the list unless it is in the list.
\<close>

definition add_primary_key :: "inspector \<Rightarrow> string list \<Rightarrow> string \<Rightarrow> string list" where
  "add_primary_key insp columns table =
     (case find (\<lambda>col. c_primary_key col \<or> lower (c_name col) \<in> set [''id'', ''pk''])
                (get_columns insp table) of
        None \<Rightarrow> columns
      | Some col \<Rightarrow>
          (let pk_col = table @ ''.'' @ c_name col
           in if pk_col \<in> set columns then columns else pk_col # columns))"

text \<open>The list of \<open>_extract_columns\<close> before its last line cuts it.\<close>

definition collected_columns :: "inspector \<Rightarrow> analysis \<Rightarrow> string list \<Rightarrow> string list" where
  "collected_columns insp a tables =
     (let mentioned = mentioned_columns a tables;
          columns = (if mentioned = []
                     then suggest_columns_for_query insp tables (a_intent a)
                     else mentioned)
      in foldl (add_primary_key insp) columns tables)"

definition extract_columns :: "inspector \<Rightarrow> analysis \<Rightarrow> string list \<Rightarrow> string list" where
  "extract_columns insp a tables = take 10 (collected_columns insp a tables)"

definition numeric_types :: "string list" where
  "numeric_types = [''INTEGER'', ''FLOAT'', ''DECIMAL'', ''NUMERIC'', ''REAL'']"

definition find_numeric_columns :: "inspector \<Rightarrow> string list \<Rightarrow> string list" where
  "find_numeric_columns insp tables =
     concat (map (\<lambda>table.
       map (\<lambda>col. table @ ''.'' @ c_name col)
           (filter (\<lambda>col. upper (c_type col) \<in> set numeric_types) (get_columns insp table)))
       tables)"

subsection \<open>The statement\<close>

definition select_clause ::
  "inspector \<Rightarrow> string \<Rightarrow> string list \<Rightarrow> string list \<Rightarrow> analysis \<Rightarrow> string" where
  "select_clause insp intent_name tables columns a =
     (if intent_name = ''count'' then ''SELECT COUNT(*)''
      else if intent_name = ''aggregate'' \<and> a_aggregation a \<noteq> None then
        (case find_numeric_columns insp tables of
           [] \<Rightarrow> ''SELECT COUNT(*)''
         | numeric_col # _ \<Rightarrow>
             ''SELECT '' @ upper (case a_aggregation a of Some f \<Rightarrow> f | None \<Rightarrow> [])
               @ ''('' @ numeric_col @ '')'')
      else if columns \<noteq> [] then ''SELECT '' @ join '', '' columns
      else ''SELECT '' @ (case tables of [] \<Rightarrow> [] | t # _ \<Rightarrow> t) @ ''.*'')"

text \<open>The statement up to and including the WHERE clause.\<close>

definition statement_body ::
  "inspector \<Rightarrow> string \<Rightarrow> string list \<Rightarrow> string list \<Rightarrow> string list \<Rightarrow> string list
     \<Rightarrow> analysis \<Rightarrow> string" where
  "statement_body insp intent_name tables columns joins conditions a =
     select_clause insp intent_name tables columns a
     @ '' '' @ (''FROM '' @ (case tables of [] \<Rightarrow> [] | t # _ \<Rightarrow> t))
     @ (if joins \<noteq> [] then '' '' @ join '' '' joins else [])
     @ (if conditions \<noteq> [] then '' WHERE '' @ join '' AND '' conditions else [])"

definition limit_clause :: "string \<Rightarrow> analysis \<Rightarrow> string" where
  "limit_clause intent_name a =
     (if intent_name = ''list'' \<and> \<not> str_in ''all'' (lower (a_original_query a))
      then '' LIMIT 10'' else [])"

definition construct_sql ::
  "inspector \<Rightarrow> string \<Rightarrow> string list \<Rightarrow> string list \<Rightarrow> string list \<Rightarrow> string list
     \<Rightarrow> analysis \<Rightarrow> string" where
  "construct_sql insp intent_name tables columns joins conditions a =
     (if tables = [] then ''SELECT 1''
      else strip (statement_body insp intent_name tables columns joins conditions a
                  @ limit_clause intent_name a))"

section \<open>The query cache (advanced\_query\_builder.py)\<close>

record cache_entry =
  ce_sql :: string
  ce_timestamp :: real
  ce_success_count :: int

text \<open>The cache is a dictionary in insertion order, from the normalised request to its entry.\<close>

type_synonym query_cache = "(string \<times> cache_entry) list"

text \<open>
  \<open>min(keys, key=timestamp)\<close>: the first entry, in the order of the dictionary, whose
  timestamp is the least.
\<close>

fun oldest_from :: "string \<times> cache_entry \<Rightarrow> query_cache \<Rightarrow> string \<times> cache_entry" where
  "oldest_from best [] = best"
| "oldest_from best (p # ps) =
     oldest_from (if ce_timestamp (snd p) < ce_timestamp (snd best) then p else best) ps"

definition oldest_key :: "query_cache \<Rightarrow> string option" where
  "oldest_key c = (case c of [] \<Rightarrow> None | p # ps \<Rightarrow> Some (fst (oldest_from p ps)))"

text \<open>
  \<open>_cache_query\<close>, with the reading of the clock as the argument \<open>now\<close>. The cache that
  is scanned for the oldest entry holds more than 100 entries, so \<open>min\<close> finds a key.
\<close>

definition cache_query :: "query_cache \<Rightarrow> string \<Rightarrow> string \<Rightarrow> real \<Rightarrow> query_cache" where
  "cache_query query_cache natural_query sql now =
     (let cache_key = strip (lower natural_query);
          seen = (case map_of query_cache cache_key of
                    None \<Rightarrow> 0
                  | Some entry \<Rightarrow> ce_success_count entry);
          cache1 = AList.update cache_key
                     \<lparr>ce_sql = sql, ce_timestamp = now, ce_success_count = seen + 1\<rparr>
                     query_cache
      in if length cache1 > 100 then
           (case oldest_key cache1 of
              None \<Rightarrow> cache1
            | Some oldest \<Rightarrow> AList.delete oldest cache1)
         else cache1)"

text \<open>
  A full cache for the examples: a hundred requests \<open>k\<close>, \<open>kk\<close>, \<open>kkk\<close> and so on,
  stored at the times 1 to 100.
\<close>

definition cache100 :: query_cache where
  "cache100 =
     map (\<lambda>i. (replicate i (CHR ''k''),
                \<lparr>ce_sql = ''SELECT 1'', ce_timestamp = real i, ce_success_count = 1\<rparr>))
         [1..<101]"

section \<open>Auxiliary notions for the properties\<close>

text \<open>
  The (intent, keyword) pairs of the keyword lists, in the order of the loop, and those
  of them whose keyword occurs in the lower-cased request.
\<close>

definition keyword_pairs :: "(string \<times> string) list" where
  "keyword_pairs = concat (map (\<lambda>(intent_name, kws). map (Pair intent_name) kws) query_patterns)"

definition matched_pairs :: "string \<Rightarrow> (string \<times> string) list" where
  "matched_pairs query = filter (\<lambda>(intent_name, keyword). str_in keyword (lower query)) keyword_pairs"

text \<open>
  The confidence after \<open>n\<close> matches: 0.5 with 0.2 added \<open>n\<close> times, every sum rounded
  as the float addition rounds it.
\<close>

definition add_two_tenths :: "real \<Rightarrow> real" where
  "add_two_tenths c = float_add c (float_literal (2 / 10))"

definition confidence_after :: "nat \<Rightarrow> real" where
  "confidence_after n = (add_two_tenths ^^ n) (float_literal (5 / 10))"

text \<open>
  The words of a text, for the claim about the word \<open>all\<close>: the longest runs of
  characters that are not whitespace. \<open>words_from cur s\<close> holds the word read so far.
\<close>

fun words_from :: "string \<Rightarrow> string \<Rightarrow> string list" where
  "words_from cur [] = (if cur = [] then [] else [cur])"
| "words_from cur (c # cs) =
     (if is_space c then
        (if cur = [] then words_from [] cs else cur # words_from [] cs)
      else words_from (cur @ [c]) cs)"

definition text_words :: "string \<Rightarrow> string list" where
  "text_words s = words_from [] s"

text \<open>An analysis that mentions twelve columns of the table \<open>t\<close>.\<close>

definition analysis_twelve_columns :: analysis where
  "analysis_twelve_columns =
     \<lparr>a_original_query = ''show everything'', a_intent = ''list'',
      a_entities = map (\<lambda>i. \<lparr>e_type = Column, e_value = replicate i (CHR ''c''),
                               e_original = None, e_table = Some ''t'',
                               e_confidence = float_literal (7 / 10)\<rparr>) [1..<13],
      a_keywords = [''show''], a_confidence = float_literal (7 / 10),
      a_aggregation = None\<rparr>"

section \<open>Properties of the safety gate\<close>

lemma startswith_iff: "startswith s p \<longleftrightarrow> (\<exists>t. s = p @ t)"
  by (induction s p rule: startswith.induct) auto

lemma str_in_iff: "str_in k s \<longleftrightarrow> (\<exists>a b. s = a @ k @ b)"
proof (induction s)
  case Nil
  then show ?case by auto
next
  case (Cons c cs)
  show ?case
  proof
    assume "str_in k (c # cs)"
    then consider "startswith (c # cs) k" | "str_in k cs" by auto
    then show "\<exists>a b. c # cs = a @ k @ b"
    proof cases
      case 1
      then obtain t where "c # cs = k @ t" by (auto simp: startswith_iff)
      then have "c # cs = [] @ k @ t" by simp
      then show ?thesis by blast
    next
      case 2
      then obtain a b where "cs = a @ k @ b" using Cons.IH by auto
      then have "c # cs = (c # a) @ k @ b" by simp
      then show ?thesis by blast
    qed
  next
    assume "\<exists>a b. c # cs = a @ k @ b"
    then obtain a b where ab: "c # cs = a @ k @ b" by auto
    show "str_in k (c # cs)"
    proof (cases a)
      case Nil
      then have "startswith (c # cs) k" using ab by (auto simp: startswith_iff)
      then show ?thesis by simp
    next
      case (Cons a1 as)
      then have "cs = as @ k @ b" using ab by simp
      then have "str_in k cs" using Cons.IH by auto
      then show ?thesis by simp
    qed
  qed
qed

lemma dropWhile_keeps_part:
  assumes "k \<noteq> []" "\<not> P (hd k)"
  shows "\<exists>a'. dropWhile P (a @ k @ b) = a' @ k @ b"
proof (cases "\<exists>x\<in>set a. \<not> P x")
  case True
  then obtain x where "x \<in> set a" "\<not> P x" by blast
  then have "dropWhile P (a @ k @ b) = dropWhile P a @ k @ b"
    by (rule dropWhile_append1)
  then show ?thesis by blast
next
  case False
  then have "dropWhile P (a @ k @ b) = dropWhile P (k @ b)"
    by (simp add: dropWhile_append2)
  also have "\<dots> = k @ b" using assms by (cases k) auto
  finally have "dropWhile P (a @ k @ b) = [] @ k @ b" by simp
  then show ?thesis by blast
qed

text \<open>
  Stripping removes whitespace at both ends only, so a word without whitespace that
  occurs in a text still occurs in the stripped text.
\<close>

lemma str_in_strip:
  assumes "str_in k s" "k \<noteq> []" "\<forall>c\<in>set k. \<not> is_space c"
  shows "str_in k (strip s)"
proof -
  obtain a b where s: "s = a @ k @ b" using assms(1) by (auto simp: str_in_iff)
  have h: "\<not> is_space (hd k)" using assms(2,3) by (cases k) auto
  obtain a' where a': "dropWhile is_space s = a' @ k @ b"
    using dropWhile_keeps_part[of k is_space a b, OF assms(2) h] s by blast
  have l: "\<not> is_space (hd (rev k))" using assms(2,3) by (simp add: hd_rev)
  have "rev k \<noteq> []" using assms(2) by simp
  from dropWhile_keeps_part[of "rev k" is_space "rev b" "rev a'", OF this l]
  obtain b' where "dropWhile is_space (rev b @ rev k @ rev a') = b' @ rev k @ rev a'" by blast
  then have "strip s = a' @ k @ rev b'" by (simp add: strip_def a')
  then show ?thesis by (auto simp: str_in_iff)
qed

lemma dangerous_keywords_plain:
  "\<forall>k\<in>set dangerous_keywords. k \<noteq> [] \<and> (\<forall>c\<in>set k. \<not> is_space c)"
  by (simp add: dangerous_keywords_def is_space_def)

lemma dangerous_in_stripped:
  assumes "list_ex (\<lambda>k. str_in k s) dangerous_keywords"
  shows "list_ex (\<lambda>k. str_in k (strip s)) dangerous_keywords"
proof -
  obtain k where k: "k \<in> set dangerous_keywords" "str_in k s"
    using assms by (auto simp: list_ex_iff)
  then have "str_in k (strip s)"
    using dangerous_keywords_plain str_in_strip by blast
  then show ?thesis using k(1) by (auto simp: list_ex_iff)
qed

text \<open>
  The stripping removes the no-break space and the next-line control as well: a
  statement that begins with one of them is accepted when the rest is.
\<close>

lemma safety_gate_strips_latin1_space:
  "is_safe_query (CHR 0xA0 # ''SELECT 1'')" "is_safe_query (CHR 0x85 # ''select 1'' @ [CHR 0xA0])"
  by code_simp+

text \<open>
  Claim C1. A statement whose upper-cased text contains one of the nine dangerous
  keywords, or whose upper-cased and stripped text does not begin with SELECT, is
  refused by \<open>is_safe_query\<close>, and \<open>execute_generated_sql\<close> then returns the failure
  result and leaves the list of issued statements as it was: nothing reaches the
  database, neither the statement nor a row-count probe. The statement
  \<open>SELECT * FROM users; DROP TABLE users\<close> is refused and \<open>SELECT * FROM users\<close> is
  accepted.
\<close>

theorem safety_gate_rejects:
  "((list_ex (\<lambda>keyword. str_in keyword (upper sql)) dangerous_keywords
      \<or> \<not> startswith (strip (upper sql)) ''SELECT'')
     \<longrightarrow> (\<not> is_safe_query sql
          \<and> execute_generated_sql db sql tables issued =
              (Failure ''Query contains potentially unsafe operations'' None, issued)))
   \<and> \<not> is_safe_query ''SELECT * FROM users; DROP TABLE users''
   \<and> is_safe_query ''SELECT * FROM users''"
proof (intro conjI impI)
  assume h: "list_ex (\<lambda>keyword. str_in keyword (upper sql)) dangerous_keywords
             \<or> \<not> startswith (strip (upper sql)) ''SELECT''"
  show unsafe: "\<not> is_safe_query sql"
  proof (cases "list_ex (\<lambda>keyword. str_in keyword (upper sql)) dangerous_keywords")
    case True
    then show ?thesis
      using dangerous_in_stripped[of "upper sql"] by (simp add: is_safe_query_def)
  next
    case False
    then show ?thesis using h by (simp add: is_safe_query_def)
  qed
  show "execute_generated_sql db sql tables issued =
          (Failure ''Query contains potentially unsafe operations'' None, issued)"
    using unsafe by (simp add: execute_generated_sql_def)
next
  show "\<not> is_safe_query ''SELECT * FROM users; DROP TABLE users''"
    by code_simp
next
  show "is_safe_query ''SELECT * FROM users''"
    by code_simp
qed

theorem safety_gate_rejects_witness:
  "list_ex (\<lambda>keyword. str_in keyword (upper ''select id from t; drop table t''))
     dangerous_keywords
   \<and> \<not> is_safe_query ''select id from t; drop table t''
   \<and> execute_generated_sql (\<lambda>s. DbResult [] [] 0) ''select id from t; drop table t''
        [''t''] [] = (Failure ''Query contains potentially unsafe operations'' None, [])"
proof -
  have h: "list_ex (\<lambda>keyword. str_in keyword (upper ''select id from t; drop table t''))
             dangerous_keywords"
    by code_simp
  show ?thesis
    using h safety_gate_rejects[of "''select id from t; drop table t''"
        "\<lambda>s. DbResult [] [] 0" "[''t'']" "[]"]
    by blast
qed

section \<open>Properties of the relationship graph\<close>

lemma map_of_add_node:
  "map_of (add_node g n) k = (if k = n \<and> map_of g n = None then Some [] else map_of g k)"
proof (cases "n \<in> fst ` set g")
  case True
  then have "map_of g n \<noteq> None" by (simp add: map_of_eq_None_iff)
  then show ?thesis using True by (simp add: add_node_def)
next
  case False
  then have "map_of g n = None" by (simp add: map_of_eq_None_iff)
  then show ?thesis using False
    by (cases "map_of g k") (auto simp: add_node_def map_add_def)
qed

lemma get_edge_data_add_node [simp]:
  "get_edge_data (add_node g n) u v = get_edge_data g u v"
  by (simp add: get_edge_data_def map_of_add_node)

lemma map_of_add_node_self: "map_of (add_node g n) n \<noteq> None"
  by (simp add: map_of_add_node)

lemma map_of_add_node_mono: "map_of g k \<noteq> None \<Longrightarrow> map_of (add_node g n) k \<noteq> None"
  by (simp add: map_of_add_node)

lemma get_edge_data_map_entry:
  assumes "map_of g u = Some nu"
  shows "get_edge_data (AList.map_entry u (AList.update v d) g) a b =
           (if a = u then (if b = v then Some d else map_of nu b) else get_edge_data g a b)"
  using assms by (simp add: get_edge_data_def AList.map_of_map_entry AList.update_conv')

lemma map_of_map_entry_defined:
  "map_of g k \<noteq> None \<Longrightarrow> map_of (AList.map_entry u f g) k \<noteq> None"
  by (auto simp: AList.map_of_map_entry split: option.splits)

lemma get_edge_data_add_edge:
  "get_edge_data (add_edge g u v d) a b =
     (if (a = u \<and> b = v) \<or> (a = v \<and> b = u) then Some d else get_edge_data g a b)"
proof -
  let ?g1 = "add_node (add_node g u) v"
  let ?g2 = "AList.map_entry u (AList.update v d) ?g1"
  obtain nu where nu: "map_of ?g1 u = Some nu"
    using map_of_add_node_mono[OF map_of_add_node_self, of g u v] by auto
  have "map_of ?g2 v \<noteq> None"
    by (rule map_of_map_entry_defined) (rule map_of_add_node_self)
  then obtain nv where nv: "map_of ?g2 v = Some nv" by auto
  have e1: "get_edge_data ?g1 a b = get_edge_data g a b" for a b by simp
  have e2: "get_edge_data ?g2 a b =
             (if a = u then (if b = v then Some d else map_of nu b) else get_edge_data g a b)" for a b
    using get_edge_data_map_entry[OF nu] e1 by simp
  have nu': "map_of nu b = get_edge_data g u b" for b
    using nu e1[of u b] by (simp add: get_edge_data_def)
  have nv': "map_of nv b = get_edge_data ?g2 v b" for b
    using nv by (simp add: get_edge_data_def)
  have e3: "get_edge_data (add_edge g u v d) a b =
             (if a = v then (if b = u then Some d else map_of nv b) else get_edge_data ?g2 a b)"
    using get_edge_data_map_entry[OF nv] by (simp add: add_edge_def Let_def)
  show ?thesis
    unfolding e3 nv' e2 nu' by simp
qed

lemma has_edge_iff: "has_edge g u v \<longleftrightarrow> get_edge_data g u v \<noteq> None"
  by (cases "map_of g u")
     (simp_all add: has_edge_def get_edge_data_def dom_map_of_conv_image_fst[symmetric] domIff)

lemma graph_okI:
  assumes "distinct (map fst g)"
    and "\<And>n nbrs. (n, nbrs) \<in> set g \<Longrightarrow> distinct (map fst nbrs)"
    and "\<And>u v. get_edge_data g u v = get_edge_data g v u"
  shows "graph_ok g"
  unfolding graph_ok_def using assms by fastforce

lemma graph_ok_distinct: "graph_ok g \<Longrightarrow> distinct (map fst g)"
  unfolding graph_ok_def by blast

lemma graph_ok_inner: "graph_ok g \<Longrightarrow> (n, nbrs) \<in> set g \<Longrightarrow> distinct (map fst nbrs)"
  unfolding graph_ok_def by force

lemma graph_ok_sym: "graph_ok g \<Longrightarrow> get_edge_data g u v = get_edge_data g v u"
  unfolding graph_ok_def by blast

lemma set_map_entry:
  "(n, nbrs) \<in> set (AList.map_entry u f g) \<Longrightarrow>
     (n, nbrs) \<in> set g \<or> (\<exists>old. (n, old) \<in> set g \<and> nbrs = f old)"
  by (induction g) (auto split: if_splits)

lemma graph_ok_add_node:
  assumes "graph_ok g"
  shows "graph_ok (add_node g n)"
proof (rule graph_okI)
  show "distinct (map fst (add_node g n))"
    using graph_ok_distinct[OF assms] by (auto simp: add_node_def)
next
  fix m nbrs assume "(m, nbrs) \<in> set (add_node g n)"
  then have "(m, nbrs) \<in> set g \<or> nbrs = []" by (auto simp: add_node_def split: if_splits)
  then show "distinct (map fst nbrs)" using graph_ok_inner[OF assms] by auto
next
  fix u v
  show "get_edge_data (add_node g n) u v = get_edge_data (add_node g n) v u"
    using graph_ok_sym[OF assms, of u v] by simp
qed

lemma graph_ok_map_entry_parts:
  assumes "distinct (map fst g)"
    and "\<And>n nbrs. (n, nbrs) \<in> set g \<Longrightarrow> distinct (map fst nbrs)"
    and "(n, nbrs) \<in> set (AList.map_entry u (AList.update v d) g)"
  shows "distinct (map fst nbrs)"
proof -
  from set_map_entry[OF assms(3)]
  consider "(n, nbrs) \<in> set g" | old where "(n, old) \<in> set g" "nbrs = AList.update v d old"
    by blast
  then show ?thesis
  proof cases
    case 1
    then show ?thesis by (rule assms(2))
  next
    case 2
    then show ?thesis using assms(2)[of n old] by (simp add: AList.distinct_update)
  qed
qed

lemma graph_ok_add_edge:
  assumes "graph_ok g"
  shows "graph_ok (add_edge g u v d)"
proof (rule graph_okI)
  let ?g1 = "add_node (add_node g u) v"
  let ?g2 = "AList.map_entry u (AList.update v d) ?g1"
  have ok1: "graph_ok ?g1" using assms by (intro graph_ok_add_node)
  have d1: "distinct (map fst ?g1)" by (rule graph_ok_distinct[OF ok1])
  have d2: "distinct (map fst ?g2)" using d1 by (rule AList.distinct_map_entry)
  have g3: "add_edge g u v d = AList.map_entry v (AList.update u d) ?g2"
    by (simp add: add_edge_def Let_def)
  show "distinct (map fst (add_edge g u v d))"
    unfolding g3 using d2 by (rule AList.distinct_map_entry)
  have i2: "distinct (map fst nbrs)" if "(n, nbrs) \<in> set ?g2" for n nbrs
    using graph_ok_map_entry_parts[OF d1 graph_ok_inner[OF ok1] that] .
  show "distinct (map fst nbrs)" if "(n, nbrs) \<in> set (add_edge g u v d)" for n nbrs
    using graph_ok_map_entry_parts[OF d2 i2 that[unfolded g3]] .
  show "get_edge_data (add_edge g u v d) a b = get_edge_data (add_edge g u v d) b a" for a b
    using graph_ok_sym[OF assms, of a b] by (simp add: get_edge_data_add_edge)
qed

lemma filter_key_distinct:
  "distinct (map fst nbrs) \<Longrightarrow>
   map snd (filter (\<lambda>(m, d). m = v) nbrs) = (case map_of nbrs v of None \<Rightarrow> [] | Some d \<Rightarrow> [d])"
proof (induction nbrs)
  case Nil
  then show ?case by simp
next
  case (Cons p ps)
  obtain m d where p: "p = (m, d)" by (cases p)
  show ?case
  proof (cases "m = v")
    case True
    then have "v \<notin> fst ` set ps" using Cons.prems p by auto
    then have "filter (\<lambda>(m, d). m = v) ps = []" by (force simp: filter_empty_conv)
    then show ?thesis using True p by simp
  next
    case False
    then show ?thesis using Cons p by simp
  qed
qed

lemma concat_key_distinct:
  "distinct (map fst g) \<Longrightarrow>
   concat (map (\<lambda>(n, nbrs). if n = u then F nbrs else []) g)
     = (case map_of g u of None \<Rightarrow> [] | Some nbrs \<Rightarrow> F nbrs)"
proof (induction g)
  case Nil
  then show ?case by simp
next
  case (Cons p ps)
  obtain n nbrs where p: "p = (n, nbrs)" by (cases p)
  show ?case
  proof (cases "n = u")
    case True
    then have "u \<notin> fst ` set ps" using Cons.prems p by auto
    then have "map_of ps u = None" by (simp add: map_of_eq_None_iff)
    then have "concat (map (\<lambda>(n, nbrs). if n = u then F nbrs else []) ps) = []"
      using Cons by simp
    then show ?thesis using True p by simp
  next
    case False
    then show ?thesis using Cons p by simp
  qed
qed

lemma edges_between_graph_ok:
  assumes "graph_ok g"
  shows "edges_between g u v = (case get_edge_data g u v of None \<Rightarrow> [] | Some d \<Rightarrow> [d])"
proof -
  have e: "edges_between g u v =
             (case map_of g u of None \<Rightarrow> []
              | Some nbrs \<Rightarrow> map snd (filter (\<lambda>(m, d). m = v) nbrs))"
    unfolding edges_between_def by (rule concat_key_distinct[OF graph_ok_distinct[OF assms]])
  show ?thesis
  proof (cases "map_of g u")
    case None
    then show ?thesis using e by (simp add: get_edge_data_def)
  next
    case (Some nbrs)
    then have "(u, nbrs) \<in> set g" by (rule map_of_SomeD)
    then have "distinct (map fst nbrs)" by (rule graph_ok_inner[OF assms])
    then show ?thesis
      using Some e filter_key_distinct[of nbrs v] by (simp add: get_edge_data_def)
  qed
qed

lemma graph_ok_empty: "graph_ok []"
  by (simp add: graph_ok_def get_edge_data_def)

lemma graph_ok_foldl_add_node: "graph_ok g \<Longrightarrow> graph_ok (foldl add_node g ts)"
  by (induction ts arbitrary: g) (simp_all add: graph_ok_add_node)

lemma graph_ok_fk_edges_of_table: "graph_ok g \<Longrightarrow> graph_ok (fk_edges_of_table insp g t)"
proof -
  have "graph_ok g \<Longrightarrow> graph_ok (foldl (\<lambda>g fk. add_edge g t (referred_table fk)
                      \<lparr>relationship_type = Foreign_key,
                       local_columns = constrained_columns fk,
                       foreign_columns = referred_columns fk\<rparr>) g fks)" for fks
    by (induction fks arbitrary: g) (simp_all add: graph_ok_add_edge)
  then show "graph_ok g \<Longrightarrow> graph_ok (fk_edges_of_table insp g t)"
    by (simp add: fk_edges_of_table_def)
qed

lemma graph_ok_build_fk_graph: "graph_ok (build_fk_graph insp)"
proof -
  have "graph_ok g \<Longrightarrow> graph_ok (foldl (fk_edges_of_table insp) g ts)" for g ts
    by (induction ts arbitrary: g) (simp_all add: graph_ok_fk_edges_of_table)
  then show ?thesis
    by (simp add: build_fk_graph_def Let_def graph_ok_foldl_add_node graph_ok_empty)
qed

text \<open>One candidate loop: the graph stays well formed and keeps every edge it has.\<close>

lemma try_potential_tables_ok:
  "graph_ok g \<Longrightarrow> graph_ok (try_potential_tables tables table cn cands g)"
  by (induction tables table cn cands g rule: try_potential_tables.induct)
     (simp_all add: graph_ok_add_edge)

lemma add_edge_keeps:
  assumes "graph_ok g" "\<not> has_edge g t p" "get_edge_data g u v = Some d"
  shows "get_edge_data (add_edge g t p e) u v = Some d"
proof -
  have n1: "get_edge_data g t p = None" using assms(2) by (simp add: has_edge_iff)
  then have n2: "get_edge_data g p t = None" using graph_ok_sym[OF assms(1), of p t] by simp
  have "\<not> ((u = t \<and> v = p) \<or> (u = p \<and> v = t))" using n1 n2 assms(3) by auto
  then show ?thesis using assms(3) by (auto simp: get_edge_data_add_edge)
qed

lemma try_potential_tables_keeps:
  "graph_ok g \<Longrightarrow> get_edge_data g u v = Some d \<Longrightarrow>
   get_edge_data (try_potential_tables tables table cn cands g) u v = Some d"
  by (induction tables table cn cands g rule: try_potential_tables.induct)
     (simp_all add: add_edge_keeps)

lemma detect_implicit_column_ok:
  "graph_ok g \<Longrightarrow> graph_ok (detect_implicit_column insp table g col)"
  by (simp add: detect_implicit_column_def Let_def try_potential_tables_ok)

lemma detect_implicit_column_keeps:
  "graph_ok g \<Longrightarrow> get_edge_data g u v = Some d \<Longrightarrow>
   get_edge_data (detect_implicit_column insp table g col) u v = Some d"
  by (simp add: detect_implicit_column_def Let_def try_potential_tables_keeps)

lemma detect_columns_ok:
  "graph_ok g \<Longrightarrow> graph_ok (foldl (detect_implicit_column insp table) g cols)"
  by (induction cols arbitrary: g) (simp_all add: detect_implicit_column_ok)

lemma detect_columns_keeps:
  "graph_ok g \<Longrightarrow> get_edge_data g u v = Some d \<Longrightarrow>
   get_edge_data (foldl (detect_implicit_column insp table) g cols) u v = Some d"
  by (induction cols arbitrary: g)
     (simp_all add: detect_implicit_column_ok detect_implicit_column_keeps)

lemma detect_tables_ok:
  "graph_ok g \<Longrightarrow>
   graph_ok (foldl (\<lambda>g table. foldl (detect_implicit_column insp table) g (cols table)) g ts)"
  by (induction ts arbitrary: g) (simp_all add: detect_columns_ok)

lemma detect_tables_keeps:
  "graph_ok g \<Longrightarrow> get_edge_data g u v = Some d \<Longrightarrow>
   get_edge_data
     (foldl (\<lambda>g table. foldl (detect_implicit_column insp table) g (cols table)) g ts) u v
     = Some d"
  by (induction ts arbitrary: g) (simp_all add: detect_columns_ok detect_columns_keeps)

lemma detect_implicit_relationships_ok:
  "graph_ok g \<Longrightarrow> graph_ok (detect_implicit_relationships insp g)"
  by (simp add: detect_implicit_relationships_def detect_tables_ok)

lemma detect_implicit_relationships_keeps:
  "graph_ok g \<Longrightarrow> get_edge_data g u v = Some d \<Longrightarrow>
   get_edge_data (detect_implicit_relationships insp g) u v = Some d"
  by (simp add: detect_implicit_relationships_def detect_tables_keeps)

lemma graph_ok_build_relationship_graph: "graph_ok (build_relationship_graph insp)"
  by (simp add: build_relationship_graph_def detect_implicit_relationships_ok
      graph_ok_build_fk_graph)

lemma all_foreign_key_fk_edges:
  "all_foreign_key g \<Longrightarrow> all_foreign_key (fk_edges_of_table insp g t)"
proof -
  have "all_foreign_key g \<Longrightarrow> all_foreign_key (foldl (\<lambda>g fk. add_edge g t (referred_table fk)
                      \<lparr>relationship_type = Foreign_key,
                       local_columns = constrained_columns fk,
                       foreign_columns = referred_columns fk\<rparr>) g fks)"
    for fks :: "foreign_key list"
  proof (induction fks arbitrary: g)
    case Nil
    then show ?case by simp
  next
    case (Cons fk fks)
    have "all_foreign_key (add_edge g t (referred_table fk)
                      \<lparr>relationship_type = Foreign_key,
                       local_columns = constrained_columns fk,
                       foreign_columns = referred_columns fk\<rparr>)"
      using Cons.prems unfolding all_foreign_key_def get_edge_data_add_edge
      by (auto split: if_splits)
    then show ?case using Cons.IH by simp
  qed
  then show "all_foreign_key g \<Longrightarrow> all_foreign_key (fk_edges_of_table insp g t)"
    by (simp add: fk_edges_of_table_def)
qed

lemma all_foreign_key_add_node: "all_foreign_key g \<Longrightarrow> all_foreign_key (add_node g n)"
  by (simp add: all_foreign_key_def)

lemma all_foreign_key_build_fk_graph: "all_foreign_key (build_fk_graph insp)"
proof -
  have n: "all_foreign_key g \<Longrightarrow> all_foreign_key (foldl add_node g ts)" for g ts
    by (induction ts arbitrary: g) (simp_all add: all_foreign_key_add_node)
  have f: "all_foreign_key g \<Longrightarrow> all_foreign_key (foldl (fk_edges_of_table insp) g ts)" for g ts
    by (induction ts arbitrary: g) (simp_all add: all_foreign_key_fk_edges)
  have "all_foreign_key []" by (simp add: all_foreign_key_def get_edge_data_def)
  then show ?thesis by (simp add: build_fk_graph_def Let_def n f)
qed

lemma endswith_iff: "endswith s p \<longleftrightarrow> (\<exists>t. s = t @ p)"
proof -
  have "endswith s p \<longleftrightarrow> (\<exists>t. rev s = rev p @ t)"
    by (simp add: endswith_def startswith_iff)
  also have "\<dots> \<longleftrightarrow> (\<exists>t. s = t @ p)"
  proof
    assume "\<exists>t. rev s = rev p @ t"
    then obtain t where "rev s = rev p @ t" by blast
    then have "rev (rev s) = rev (rev p @ t)" by simp
    then have "s = rev t @ p" by simp
    then show "\<exists>t. s = t @ p" by blast
  next
    assume "\<exists>t. s = t @ p"
    then obtain t where "s = t @ p" by blast
    then have "rev s = rev p @ rev t" by simp
    then show "\<exists>t. rev s = rev p @ t" by blast
  qed
  finally show ?thesis .
qed

lemma customers_candidate:
  assumes "endswith cn ''_id''" "Some ''customers'' \<in> set (potential_tables cn)"
  shows "cn = ''customers_id'' \<or> cn = ''customer_id''"
proof -
  obtain pt where cn: "cn = pt @ ''_id''" using assms(1) by (auto simp: endswith_iff)
  have pt: "take (length cn - 3) cn = pt" by (simp add: cn)
  from assms(2) consider "pt = ''customers''" | "pt @ ''s'' = ''customers''"
    | "pt @ ''es'' = ''customers''" | "butlast pt @ ''ies'' = ''customers''"
    unfolding potential_tables_def Let_def pt by (auto split: if_splits)
  then show ?thesis
  proof cases
    case 1
    then show ?thesis by (simp add: cn)
  next
    case 2
    then have "rev (pt @ ''s'') = rev ''customers''" by simp
    then have "pt = ''customer''" by simp
    then show ?thesis by (simp add: cn)
  next
    case 3
    then have "rev (pt @ ''es'') = rev ''customers''" by simp
    then show ?thesis by simp
  next
    case 4
    then have "rev (butlast pt @ ''ies'') = rev ''customers''" by simp
    then show ?thesis by simp
  qed
qed

lemma orders_candidate:
  assumes "endswith cn ''_id''" "Some ''orders'' \<in> set (potential_tables cn)"
  shows "cn = ''orders_id'' \<or> cn = ''order_id''"
proof -
  obtain pt where cn: "cn = pt @ ''_id''" using assms(1) by (auto simp: endswith_iff)
  have pt: "take (length cn - 3) cn = pt" by (simp add: cn)
  from assms(2) consider "pt = ''orders''" | "pt @ ''s'' = ''orders''"
    | "pt @ ''es'' = ''orders''" | "butlast pt @ ''ies'' = ''orders''"
    unfolding potential_tables_def Let_def pt by (auto split: if_splits)
  then show ?thesis
  proof cases
    case 1
    then show ?thesis by (simp add: cn)
  next
    case 2
    then have "rev (pt @ ''s'') = rev ''orders''" by simp
    then have "pt = ''order''" by simp
    then show ?thesis by (simp add: cn)
  next
    case 3
    then have "rev (pt @ ''es'') = rev ''orders''" by simp
    then show ?thesis by simp
  next
    case 4
    then have "rev (butlast pt @ ''ies'') = rev ''orders''" by simp
    then show ?thesis by simp
  qed
qed

lemma try_potential_tables_cases:
  "try_potential_tables tables table cn cands g = g
   \<or> (\<exists>pot. Some pot \<in> set cands \<and> pot \<in> set tables \<and> \<not> has_edge g table pot
        \<and> try_potential_tables tables table cn cands g =
            add_edge g table pot \<lparr>relationship_type = Implicit,
                                  local_columns = [cn],
                                  foreign_columns = [''id'']\<rparr>)"
  by (induction tables table cn cands g rule: try_potential_tables.induct) auto

text \<open>
  The steps of the naming-pattern phase on a schema of the two tables \<open>orders\<close> and
  \<open>customers\<close>, in whichever order the catalogue lists them.
\<close>

lemma orders_column_step:
  assumes tables: "set (get_table_names insp) = {''orders'', ''customers''}"
    and ok: "graph_ok g" and inv: "customer_edge_or_none g"
    and name: "lower (c_name col) \<noteq> ''customers_id''"
  shows "customer_edge_or_none (detect_implicit_column insp ''orders'' g col)"
proof (cases "endswith (lower (c_name col)) ''_id''")
  case False
  then show ?thesis using inv by (simp add: detect_implicit_column_def Let_def)
next
  case True
  let ?cn = "lower (c_name col)"
  let ?r = "try_potential_tables (get_table_names insp) ''orders'' ?cn (potential_tables ?cn) g"
  have r: "detect_implicit_column insp ''orders'' g col = ?r"
    using True by (simp add: detect_implicit_column_def Let_def)
  from try_potential_tables_cases[of "get_table_names insp" "''orders''" ?cn
      "potential_tables ?cn" g]
  consider "?r = g"
    | pot where "Some pot \<in> set (potential_tables ?cn)" "pot \<in> set (get_table_names insp)"
        "\<not> has_edge g ''orders'' pot"
        "?r = add_edge g ''orders'' pot \<lparr>relationship_type = Implicit,
                                  local_columns = [?cn], foreign_columns = [''id'']\<rparr>"
    by blast
  then show ?thesis
  proof cases
    case 1
    then show ?thesis using inv r by simp
  next
    case 2
    show ?thesis
    proof (cases "pot = ''customers''")
      case True
      then have "?cn = ''customer_id''"
        using customers_candidate[OF \<open>endswith ?cn ''_id''\<close>] 2(1) name by blast
      then show ?thesis
        using 2(4) True r
        by (simp add: customer_edge_or_none_def get_edge_data_add_edge customer_edge_def)
    next
      case False
      then have "pot = ''orders''" using 2(2) tables by auto
      then show ?thesis
        using 2(4) r inv
        by (simp add: customer_edge_or_none_def get_edge_data_add_edge)
    qed
  qed
qed

lemma orders_columns_before:
  assumes tables: "set (get_table_names insp) = {''orders'', ''customers''}"
  shows "graph_ok g \<Longrightarrow> customer_edge_or_none g \<Longrightarrow>
         \<forall>c'\<in>set pre. lower (c_name c') \<noteq> ''customers_id'' \<Longrightarrow>
         customer_edge_or_none (foldl (detect_implicit_column insp ''orders'') g pre)"
proof (induction pre arbitrary: g)
  case Nil
  then show ?case by simp
next
  case (Cons a pre)
  have "customer_edge_or_none (detect_implicit_column insp ''orders'' g a)"
    using orders_column_step[OF tables Cons.prems(1,2)] Cons.prems(3) by simp
  moreover have "graph_ok (detect_implicit_column insp ''orders'' g a)"
    using Cons.prems(1) by (rule detect_implicit_column_ok)
  ultimately show ?case using Cons.IH Cons.prems(3) by simp
qed

lemma customers_column_step:
  assumes tables: "set (get_table_names insp) = {''orders'', ''customers''}"
    and inv: "customer_edge_or_none g"
    and name: "lower (c_name col) \<notin> set [''order_id'', ''orders_id'']"
  shows "customer_edge_or_none (detect_implicit_column insp ''customers'' g col)"
proof (cases "endswith (lower (c_name col)) ''_id''")
  case False
  then show ?thesis using inv by (simp add: detect_implicit_column_def Let_def)
next
  case True
  let ?cn = "lower (c_name col)"
  let ?r = "try_potential_tables (get_table_names insp) ''customers'' ?cn (potential_tables ?cn) g"
  have r: "detect_implicit_column insp ''customers'' g col = ?r"
    using True by (simp add: detect_implicit_column_def Let_def)
  from try_potential_tables_cases[of "get_table_names insp" "''customers''" ?cn
      "potential_tables ?cn" g]
  consider "?r = g"
    | pot where "Some pot \<in> set (potential_tables ?cn)" "pot \<in> set (get_table_names insp)"
        "?r = add_edge g ''customers'' pot \<lparr>relationship_type = Implicit,
                                  local_columns = [?cn], foreign_columns = [''id'']\<rparr>"
    by blast
  then show ?thesis
  proof cases
    case 1
    then show ?thesis using inv r by simp
  next
    case 2
    have "pot \<noteq> ''orders''"
      using orders_candidate[OF \<open>endswith ?cn ''_id''\<close>] 2(1) name by auto
    then have "pot = ''customers''" using 2(2) tables by auto
    then show ?thesis
      using 2(3) r inv
      by (simp add: customer_edge_or_none_def get_edge_data_add_edge)
  qed
qed

lemma customers_columns_first:
  assumes tables: "set (get_table_names insp) = {''orders'', ''customers''}"
  shows "customer_edge_or_none g \<Longrightarrow>
         \<forall>c'\<in>set cols. lower (c_name c') \<notin> set [''order_id'', ''orders_id''] \<Longrightarrow>
         customer_edge_or_none (foldl (detect_implicit_column insp ''customers'') g cols)"
proof (induction cols arbitrary: g)
  case Nil
  then show ?case by simp
next
  case (Cons a cols)
  have "customer_edge_or_none (detect_implicit_column insp ''customers'' g a)"
    using customers_column_step[OF tables Cons.prems(1)] Cons.prems(2) by simp
  then show ?case using Cons.IH Cons.prems(2) by simp
qed

lemma customer_id_column_step:
  assumes tables: "set (get_table_names insp) = {''orders'', ''customers''}"
    and inv: "customer_edge_or_none g"
    and name: "lower (c_name c) = ''customer_id''"
  shows "get_edge_data (detect_implicit_column insp ''orders'' g c) ''orders'' ''customers''
           = Some customer_edge"
proof -
  have e: "endswith ''customer_id'' ''_id''" by (simp add: endswith_def)
  have p: "potential_tables ''customer_id'' =
             [Some ''customer'', Some ''customers'', Some ''customeres'', None]"
    by (simp add: potential_tables_def endswith_def)
  have t1: "''customer'' \<notin> set (get_table_names insp)" using tables by simp
  have t2: "''customers'' \<in> set (get_table_names insp)" using tables by simp
  show ?thesis
  proof (cases "has_edge g ''orders'' ''customers''")
    case True
    then have "get_edge_data g ''orders'' ''customers'' = Some customer_edge"
      using inv by (auto simp: has_edge_iff customer_edge_or_none_def)
    then show ?thesis
      using True t1 t2 by (simp add: detect_implicit_column_def Let_def name e p)
  next
    case False
    then show ?thesis
      using t1 t2
      by (simp add: detect_implicit_column_def Let_def name e p get_edge_data_add_edge
          customer_edge_def)
  qed
qed

lemma orders_columns_all:
  assumes tables: "set (get_table_names insp) = {''orders'', ''customers''}"
    and ok: "graph_ok g" and inv: "customer_edge_or_none g"
    and cols: "get_columns insp ''orders'' = pre @ [c] @ post"
    and name: "lower (c_name c) = ''customer_id''"
    and pre: "\<forall>c'\<in>set pre. lower (c_name c') \<noteq> ''customers_id''"
  shows "get_edge_data (foldl (detect_implicit_column insp ''orders'') g
                          (get_columns insp ''orders'')) ''orders'' ''customers''
           = Some customer_edge"
    and "graph_ok (foldl (detect_implicit_column insp ''orders'') g (get_columns insp ''orders''))"
proof -
  let ?step = "detect_implicit_column insp ''orders''"
  let ?g1 = "foldl ?step g pre"
  have ok1: "graph_ok ?g1" using ok by (rule detect_columns_ok)
  have inv1: "customer_edge_or_none ?g1"
    using orders_columns_before[OF tables ok inv pre] .
  let ?g2 = "?step ?g1 c"
  have ok2: "graph_ok ?g2" using ok1 by (rule detect_implicit_column_ok)
  have e2: "get_edge_data ?g2 ''orders'' ''customers'' = Some customer_edge"
    using customer_id_column_step[OF tables inv1 name] .
  have "get_edge_data (foldl ?step ?g2 post) ''orders'' ''customers'' = Some customer_edge"
    using detect_columns_keeps[OF ok2 e2] .
  then show "get_edge_data (foldl ?step g (get_columns insp ''orders'')) ''orders'' ''customers''
           = Some customer_edge"
    by (simp add: cols)
  show "graph_ok (foldl ?step g (get_columns insp ''orders''))"
    using ok by (rule detect_columns_ok)
qed

lemma orders_customers_scenario:
  assumes tables: "get_table_names insp = [''orders'', ''customers'']
                   \<or> get_table_names insp = [''customers'', ''orders'']"
    and no_fk: "get_foreign_keys insp ''orders'' = []" "get_foreign_keys insp ''customers'' = []"
    and cols: "get_columns insp ''orders'' = pre @ [c] @ post"
    and name: "lower (c_name c) = ''customer_id''"
    and pre: "\<forall>c'\<in>set pre. lower (c_name c') \<noteq> ''customers_id''"
    and backref: "get_table_names insp = [''customers'', ''orders''] \<longrightarrow>
               (\<forall>c'\<in>set (get_columns insp ''customers'').
                   lower (c_name c') \<notin> set [''order_id'', ''orders_id''])"
  shows "get_edge_data (build_relationship_graph insp) ''orders'' ''customers''
           = Some customer_edge"
proof -
  let ?g0 = "build_fk_graph insp"
  have tset: "set (get_table_names insp) = {''orders'', ''customers''}"
    using tables by auto
  have ok0: "graph_ok ?g0" by (rule graph_ok_build_fk_graph)
  have inv0: "customer_edge_or_none ?g0"
    using tables
    by (auto simp: build_fk_graph_def fk_edges_of_table_def no_fk add_node_def
        customer_edge_or_none_def get_edge_data_def)
  from tables show ?thesis
  proof
    assume t: "get_table_names insp = [''orders'', ''customers'']"
    let ?g3 = "foldl (detect_implicit_column insp ''orders'') ?g0 (get_columns insp ''orders'')"
    have e3: "get_edge_data ?g3 ''orders'' ''customers'' = Some customer_edge"
      and ok3: "graph_ok ?g3"
      using orders_columns_all[OF tset ok0 inv0 cols name pre] by simp_all
    have "build_relationship_graph insp =
            foldl (detect_implicit_column insp ''customers'') ?g3 (get_columns insp ''customers'')"
      by (simp add: build_relationship_graph_def detect_implicit_relationships_def t)
    then show ?thesis using detect_columns_keeps[OF ok3 e3] by simp
  next
    assume t: "get_table_names insp = [''customers'', ''orders'']"
    let ?g1 = "foldl (detect_implicit_column insp ''customers'') ?g0
                 (get_columns insp ''customers'')"
    have ok1: "graph_ok ?g1" using ok0 by (rule detect_columns_ok)
    have inv1: "customer_edge_or_none ?g1"
      using customers_columns_first[OF tset inv0] backref t by blast
    have "build_relationship_graph insp =
            foldl (detect_implicit_column insp ''orders'') ?g1 (get_columns insp ''orders'')"
      by (simp add: build_relationship_graph_def detect_implicit_relationships_def t)
    then show ?thesis using orders_columns_all(1)[OF tset ok1 inv1 cols name pre] by simp
  qed
qed

text \<open>
  Claim C2 as stated fails in its last part. With a column \<open>customers_id\<close> before
  \<open>customer_id\<close> in \<open>orders\<close>, the edge between the two tables is made for
  \<open>customers_id\<close> and the later column finds it in place; with \<open>customers\<close> first in the
  catalogue and a column \<open>order_id\<close> or \<open>orders_id\<close> in it, the edge is made from the
  side of \<open>customers\<close>. In both schemas \<open>orders\<close> has a column \<open>customer_id\<close> and no foreign key
  is declared.
\<close>

theorem first_pattern_column_wins:
  "get_table_names insp_plural_column_first = [''orders'', ''customers'']
   \<and> get_foreign_keys insp_plural_column_first ''orders'' = []
   \<and> ''customer_id'' \<in> set (map c_name (get_columns insp_plural_column_first ''orders''))
   \<and> edges_between (build_relationship_graph insp_plural_column_first) ''orders'' ''customers''
      = [\<lparr>relationship_type = Implicit, local_columns = [''customers_id''],
          foreign_columns = [''id'']\<rparr>]
   \<and> get_table_names insp_back_reference = [''customers'', ''orders'']
   \<and> get_foreign_keys insp_back_reference ''orders'' = []
   \<and> ''customer_id'' \<in> set (map c_name (get_columns insp_back_reference ''orders''))
   \<and> edges_between (build_relationship_graph insp_back_reference) ''orders'' ''customers''
      = [\<lparr>relationship_type = Implicit, local_columns = [''order_id''],
          foreign_columns = [''id'']\<rparr>]
   \<and> get_table_names insp_back_reference_plural = [''customers'', ''orders'']
   \<and> get_foreign_keys insp_back_reference_plural ''orders'' = []
   \<and> ''customer_id'' \<in> set (map c_name (get_columns insp_back_reference_plural ''orders''))
   \<and> edges_between (build_relationship_graph insp_back_reference_plural)
        ''orders'' ''customers''
      = [\<lparr>relationship_type = Implicit, local_columns = [''orders_id''],
          foreign_columns = [''id'']\<rparr>]"
  by code_simp

text \<open>
  Claim C2, amended. In the graph that \<open>_build_relationship_graph\<close> returns, every pair
  of tables has at most one relationship edge, the same one read from either end; every
  edge that the foreign-key phase created is of the foreign-key kind and is still there
  with the same columns after the naming-pattern phase. On a schema whose tables are
  \<open>orders\<close> and \<open>customers\<close>, in either order, without declared foreign keys, where
  \<open>orders\<close> has a column \<open>customer_id\<close> (in any letter case), the one edge between
  the two tables is the implicit edge with local column \<open>customer_id\<close> and foreign
  column \<open>id\<close>, provided no column scanned earlier makes the edge first: no column
  \<open>customers_id\<close> before \<open>customer_id\<close> in \<open>orders\<close> and, when \<open>customers\<close> is listed
  first, no column \<open>order_id\<close> or \<open>orders_id\<close> in \<open>customers\<close>.
\<close>

theorem relationship_graph_edges:
  "(\<forall>u v. length (edges_between (build_relationship_graph insp) u v) \<le> 1
          \<and> edges_between (build_relationship_graph insp) u v
              = edges_between (build_relationship_graph insp) v u)
   \<and> (\<forall>u v d. get_edge_data (build_fk_graph insp) u v = Some d \<longrightarrow>
          relationship_type d = Foreign_key
          \<and> get_edge_data (build_relationship_graph insp) u v = Some d)
   \<and> ((get_table_names insp = [''orders'', ''customers'']
          \<or> get_table_names insp = [''customers'', ''orders''])
        \<and> get_foreign_keys insp ''orders'' = [] \<and> get_foreign_keys insp ''customers'' = []
        \<and> get_columns insp ''orders'' = pre @ [c] @ post
        \<and> lower (c_name c) = ''customer_id''
        \<and> (\<forall>c'\<in>set pre. lower (c_name c') \<noteq> ''customers_id'')
        \<and> (get_table_names insp = [''customers'', ''orders''] \<longrightarrow>
             (\<forall>c'\<in>set (get_columns insp ''customers'').
                 lower (c_name c') \<notin> set [''order_id'', ''orders_id'']))
       \<longrightarrow> edges_between (build_relationship_graph insp) ''orders'' ''customers''
             = [customer_edge]
           \<and> edges_between (build_relationship_graph insp) ''customers'' ''orders''
             = [customer_edge])"
proof (intro conjI allI impI)
  let ?G = "build_relationship_graph insp"
  have ok: "graph_ok ?G" by (rule graph_ok_build_relationship_graph)
  have eb: "edges_between ?G u v = (case get_edge_data ?G u v of None \<Rightarrow> [] | Some d \<Rightarrow> [d])"
    for u v by (rule edges_between_graph_ok[OF ok])
  show "length (edges_between ?G u v) \<le> 1" for u v
    unfolding eb by (simp split: option.splits)
  show "edges_between ?G u v = edges_between ?G v u" for u v
    unfolding eb using graph_ok_sym[OF ok, of u v] by simp
  show "relationship_type d = Foreign_key"
    if "get_edge_data (build_fk_graph insp) u v = Some d" for u v d
    using that all_foreign_key_build_fk_graph[of insp] unfolding all_foreign_key_def by blast
  show "get_edge_data ?G u v = Some d"
    if "get_edge_data (build_fk_graph insp) u v = Some d" for u v d
    unfolding build_relationship_graph_def
    using detect_implicit_relationships_keeps[OF graph_ok_build_fk_graph that] .
  assume h: "(get_table_names insp = [''orders'', ''customers'']
          \<or> get_table_names insp = [''customers'', ''orders''])
        \<and> get_foreign_keys insp ''orders'' = [] \<and> get_foreign_keys insp ''customers'' = []
        \<and> get_columns insp ''orders'' = pre @ [c] @ post
        \<and> lower (c_name c) = ''customer_id''
        \<and> (\<forall>c'\<in>set pre. lower (c_name c') \<noteq> ''customers_id'')
        \<and> (get_table_names insp = [''customers'', ''orders''] \<longrightarrow>
             (\<forall>c'\<in>set (get_columns insp ''customers'').
                 lower (c_name c') \<notin> set [''order_id'', ''orders_id'']))"
  then have e: "get_edge_data ?G ''orders'' ''customers'' = Some customer_edge"
    using orders_customers_scenario[of insp pre c post] by blast
  then show "edges_between ?G ''orders'' ''customers'' = [customer_edge]"
    unfolding eb by simp
  have "get_edge_data ?G ''customers'' ''orders'' = Some customer_edge"
    using e graph_ok_sym[OF ok, of "''customers''" "''orders''"] by simp
  then show "edges_between ?G ''customers'' ''orders'' = [customer_edge]"
    unfolding eb by simp
qed

lemma lower_plain_names:
  "lower ''customer_id'' = ''customer_id''" "lower ''id'' = ''id''" "lower ''name'' = ''name''"
  by code_simp+

theorem relationship_graph_edges_witness:
  "edges_between (build_relationship_graph insp_orders_customers) ''orders'' ''customers''
     = [customer_edge]
   \<and> edges_between (build_relationship_graph insp_sorted_catalogue) ''orders'' ''customers''
     = [customer_edge]
   \<and> edges_between (build_relationship_graph insp_sorted_catalogue) ''customers'' ''orders''
     = [customer_edge]
   \<and> get_edge_data (build_fk_graph insp_declared_fk) ''orders'' ''customers''
     = Some declared_edge
   \<and> get_edge_data (build_relationship_graph insp_declared_fk) ''orders'' ''customers''
     = Some declared_edge"
proof -
  let ?id = "\<lparr>c_name = ''id'', c_type = ''INTEGER'', c_primary_key = True\<rparr>"
  let ?cid = "\<lparr>c_name = ''customer_id'', c_type = ''INTEGER'', c_primary_key = False\<rparr>"
  let ?total = "\<lparr>c_name = ''total'', c_type = ''FLOAT'', c_primary_key = False\<rparr>"
  have h: "(get_table_names insp_orders_customers = [''orders'', ''customers'']
          \<or> get_table_names insp_orders_customers = [''customers'', ''orders''])
        \<and> get_foreign_keys insp_orders_customers ''orders'' = []
        \<and> get_foreign_keys insp_orders_customers ''customers'' = []
        \<and> get_columns insp_orders_customers ''orders'' = [?id] @ [?cid] @ [?total]
        \<and> lower (c_name ?cid) = ''customer_id''
        \<and> (\<forall>c'\<in>set [?id]. lower (c_name c') \<noteq> ''customers_id'')
        \<and> (get_table_names insp_orders_customers = [''customers'', ''orders''] \<longrightarrow>
             (\<forall>c'\<in>set (get_columns insp_orders_customers ''customers'').
                 lower (c_name c') \<notin> set [''order_id'', ''orders_id'']))"
    by (simp add: insp_orders_customers_def lower_plain_names)
  have s: "(get_table_names insp_sorted_catalogue = [''orders'', ''customers'']
          \<or> get_table_names insp_sorted_catalogue = [''customers'', ''orders''])
        \<and> get_foreign_keys insp_sorted_catalogue ''orders'' = []
        \<and> get_foreign_keys insp_sorted_catalogue ''customers'' = []
        \<and> get_columns insp_sorted_catalogue ''orders'' = [?id] @ [?cid] @ []
        \<and> lower (c_name ?cid) = ''customer_id''
        \<and> (\<forall>c'\<in>set [?id]. lower (c_name c') \<noteq> ''customers_id'')
        \<and> (get_table_names insp_sorted_catalogue = [''customers'', ''orders''] \<longrightarrow>
             (\<forall>c'\<in>set (get_columns insp_sorted_catalogue ''customers'').
                 lower (c_name c') \<notin> set [''order_id'', ''orders_id'']))"
    by (simp add: insp_sorted_catalogue_def lower_plain_names)
  have f: "get_edge_data (build_fk_graph insp_declared_fk) ''orders'' ''customers''
             = Some declared_edge"
    by (simp add: build_fk_graph_def insp_declared_fk_def fk_edges_of_table_def
        get_edge_data_add_edge declared_edge_def)
  show ?thesis
    using h s f relationship_graph_edges[of insp_orders_customers "[?id]" ?cid "[?total]"]
      relationship_graph_edges[of insp_sorted_catalogue "[?id]" ?cid "[]"]
      relationship_graph_edges[of insp_declared_fk]
    by blast
qed

section \<open>Properties of related tables and of table aliases\<close>


text \<open>
  Claim C10. The indirect list of \<open>get_related_tables\<close> with a depth above 1 is not
  deduplicated. In the graph built for the four-table schema, \<open>regions\<close> is a neighbour
  of \<open>customers\<close> and of \<open>products\<close>, the two direct neighbours of \<open>orders\<close>, and is
  neither \<open>orders\<close> nor a direct neighbour of it: it stands twice in the indirect list.
\<close>

theorem related_tables_indirect_repeats:
  "neighbors (build_relationship_graph insp_diamond) ''orders''
     = Some [''customers'', ''products'']
   \<and> neighbors (build_relationship_graph insp_diamond) ''customers''
     = Some [''orders'', ''regions'']
   \<and> neighbors (build_relationship_graph insp_diamond) ''products''
     = Some [''orders'', ''regions'']
   \<and> get_related_tables (build_relationship_graph insp_diamond) ''orders'' 2
     = ([''customers'', ''products''], [''regions'', ''regions''])
   \<and> count_list (snd (get_related_tables (build_relationship_graph insp_diamond) ''orders'' 2))
        ''regions'' = 2"
  by code_simp

text \<open>
  Claim C7 as stated fails: the table \<open>tbl_widgets\<close> has the prefix \<open>tbl_\<close>, its
  cleaned name is \<open>widgets\<close>, and the aliases derived for it are \<open>widg\<close> alone. The
  cleaned name is used to derive abbreviations and to look up the business synonyms; it
  is not itself put on the list.
\<close>

theorem alias_set_lacks_cleaned_name:
  "startswith (lower ''tbl_widgets'') ''tbl_''
   \<and> clean_name ''tbl_widgets'' = ''widgets''
   \<and> aliases_of_table ''tbl_widgets'' = Inr [''widg'']
   \<and> detect_table_aliases insp_widgets
      = Inr [(''tbl_widgets'', [''widg'']),
             (''tbl_customer'', [''cust'', ''customer'', ''client''])]
   \<and> ''widgets'' \<notin> set [''widg'']"
  by code_simp

lemma detect_table_aliases_loop_entry:
  "detect_table_aliases_loop tables acc = Inr m \<Longrightarrow> table \<in> set tables \<Longrightarrow>
   \<exists>aliases. aliases_of_table table = Inr aliases \<and> map_of m table = Some aliases"
proof (induction tables arbitrary: acc)
  case Nil
  then show ?case by simp
next
  case (Cons t ts)
  obtain a where a: "aliases_of_table t = Inr a"
    using Cons.prems(1) by (cases "aliases_of_table t") auto
  have rest: "detect_table_aliases_loop ts (AList.update t a acc) = Inr m"
    using Cons.prems(1) a by simp
  show ?case
  proof (cases "table \<in> set ts")
    case True
    then show ?thesis using Cons.IH[OF rest] by simp
  next
    case False
    then have eq: "table = t" using Cons.prems(2) by simp
    have keep: "detect_table_aliases_loop ts' acc' = Inr m' \<Longrightarrow> table \<notin> set ts' \<Longrightarrow>
                map_of m' table = map_of acc' table" for ts' acc' m'
    proof (induction ts' arbitrary: acc')
      case Nil
      then show ?case by simp
    next
      case (Cons s ss)
      obtain b where b: "aliases_of_table s = Inr b"
        using Cons.prems(1) by (cases "aliases_of_table s") auto
      have "map_of m' table = map_of (AList.update s b acc') table"
        using Cons.IH[of "AList.update s b acc'"] Cons.prems b by simp
      then show ?case using Cons.prems(2) by (simp add: AList.update_conv')
    qed
    have "map_of m table = map_of (AList.update t a acc) table"
      using keep[OF rest False] .
    then show ?thesis using eq a by (simp add: AList.update_conv')
  qed
qed

text \<open>
  The words of a name and the separators between them fit into the name, so the
  initials of two or more non-empty words are shorter than the name.
\<close>

lemma split_from_size:
  "sum_list (map length (split_from cur in_run s)) + length (split_from cur in_run s)
     \<le> Suc (length cur + length s)"
proof (induction s arbitrary: cur in_run)
  case Nil
  then show ?case by simp
next
  case (Cons c cs)
  show ?case
  proof (cases "is_separator c")
    case True
    then show ?thesis using Cons.IH[of "[]" True] by (cases in_run) simp_all
  next
    case False
    then show ?thesis using Cons.IH[of "cur @ [c]" False] by simp
  qed
qed

lemma words_sum_ge: "[] \<notin> set ws \<Longrightarrow> length ws \<le> sum_list (map length ws)"
proof (induction ws)
  case Nil
  then show ?case by simp
next
  case (Cons w ws)
  then have "1 \<le> length w" by (cases w) auto
  moreover have "length ws \<le> sum_list (map length ws)" using Cons by simp
  ultimately show ?case by simp
qed

lemma initials_not_whole:
  assumes "length (split_words cn) > 1" "[] \<notin> set (split_words cn)"
  shows "map hd (split_words cn) \<noteq> cn"
proof -
  let ?ws = "split_words cn"
  have "sum_list (map length ?ws) + length ?ws \<le> Suc (length cn)"
    using split_from_size[of "[]" False cn] by (simp add: split_words_def)
  moreover have "length ?ws \<le> sum_list (map length ?ws)"
    using assms(2) by (rule words_sum_ge)
  ultimately have "length ?ws + length ?ws \<le> Suc (length cn)" by simp
  then have l: "length (map hd ?ws) < length cn" using assms(1) by simp
  show ?thesis
  proof
    assume "map hd ?ws = cn"
    then have "length (map hd ?ws) = length cn" by (rule arg_cong)
    then show False using l by simp
  qed
qed

lemma abbreviations_not_whole:
  assumes "abbreviations cn = Inr abbrs"
  shows "cn \<notin> set abbrs"
proof (cases "length cn > 4")
  case False
  then show ?thesis using assms by (simp add: abbreviations_def)
next
  case True
  have t: "take 4 cn \<noteq> cn"
  proof
    assume "take 4 cn = cn"
    then have "length (take 4 cn) = length cn" by (rule arg_cong)
    then show False using True by simp
  qed
  then have t': "cn \<noteq> take 4 cn" by (rule not_sym)
  show ?thesis
  proof (cases "length (split_words cn) > 1")
    case False
    then show ?thesis using assms True t t' by (auto simp: abbreviations_def Let_def)
  next
    case many: True
    show ?thesis
    proof (cases "[] \<in> set (split_words cn)")
      case True
      then show ?thesis using assms \<open>length cn > 4\<close> many by (simp add: abbreviations_def Let_def)
    next
      case False
      then have i: "map hd (split_words cn) \<noteq> cn" using many initials_not_whole by blast
      then have i': "cn \<noteq> map hd (split_words cn)" by (rule not_sym)
      show ?thesis
        using assms \<open>length cn > 4\<close> many False t t' i i'
        by (auto simp: abbreviations_def Let_def)
    qed
  qed
qed

lemma aliases_of_table_cleaned_iff:
  assumes "aliases_of_table table = Inr aliases"
  shows "clean_name table \<in> set aliases \<longleftrightarrow>
           list_ex (\<lambda>(full_name, alias_list).
                      (str_in full_name (clean_name table) \<or> str_in (clean_name table) full_name)
                      \<and> clean_name table \<in> set alias_list)
                   business_aliases"
proof -
  let ?cn = "clean_name table"
  obtain abbrs where a: "abbreviations ?cn = Inr abbrs"
    using assms by (auto simp: aliases_of_table_def Let_def split: sum.splits)
  have n: "?cn \<notin> set abbrs" using a by (rule abbreviations_not_whole)
  have "aliases = remdups (abbrs @
          concat (map snd (filter (\<lambda>(full_name, alias_list).
                                          str_in full_name ?cn \<or> str_in ?cn full_name)
                                       business_aliases)))"
    using assms a by (simp add: aliases_of_table_def Let_def)
  then have "set aliases = set abbrs \<union>
          set (concat (map snd (filter (\<lambda>(full_name, alias_list).
                                          str_in full_name ?cn \<or> str_in ?cn full_name)
                                       business_aliases)))"
    by simp
  then have "?cn \<in> set aliases \<longleftrightarrow>
          ?cn \<in> set (concat (map snd (filter (\<lambda>(full_name, alias_list).
                                          str_in full_name ?cn \<or> str_in ?cn full_name)
                                       business_aliases)))"
    using n by simp
  also have "\<dots> \<longleftrightarrow> list_ex (\<lambda>(full_name, alias_list).
                      (str_in full_name ?cn \<or> str_in ?cn full_name) \<and> ?cn \<in> set alias_list)
                   business_aliases"
    by (force simp: list_ex_iff)
  finally show ?thesis .
qed

text \<open>
  Claim C7, amended. When alias detection completes, the alias set of a table whose
  name has the prefix \<open>tbl_\<close> or the suffix \<open>_table\<close> contains the cleaned name, the
  lower-cased name with the affix stripped, if and only if the cleaned name is one of
  the synonyms of a business name that contains it or that it contains, as the cleaned
  name \<open>customer\<close> of \<open>tbl_customer\<close> is a synonym of \<open>customers\<close>.
\<close>

theorem alias_set_cleaned_name_iff:
  "detect_table_aliases insp = Inr table_aliases \<and> table \<in> set (get_table_names insp)
     \<and> (startswith (lower table) ''tbl_'' \<or> endswith (lower table) ''_table'')
   \<longrightarrow> (\<exists>aliases. map_of table_aliases table = Some aliases
          \<and> (clean_name table \<in> set aliases \<longleftrightarrow>
               list_ex (\<lambda>(full_name, alias_list).
                          (str_in full_name (clean_name table)
                             \<or> str_in (clean_name table) full_name)
                          \<and> clean_name table \<in> set alias_list)
                       business_aliases))"
proof
  assume h: "detect_table_aliases insp = Inr table_aliases \<and> table \<in> set (get_table_names insp)
     \<and> (startswith (lower table) ''tbl_'' \<or> endswith (lower table) ''_table'')"
  then obtain aliases where a: "aliases_of_table table = Inr aliases"
      "map_of table_aliases table = Some aliases"
    using detect_table_aliases_loop_entry[of "get_table_names insp" "[]" table_aliases table]
    by (auto simp: detect_table_aliases_def)
  show "\<exists>aliases. map_of table_aliases table = Some aliases
          \<and> (clean_name table \<in> set aliases \<longleftrightarrow>
               list_ex (\<lambda>(full_name, alias_list).
                          (str_in full_name (clean_name table)
                             \<or> str_in (clean_name table) full_name)
                          \<and> clean_name table \<in> set alias_list)
                       business_aliases)"
    using a(2) aliases_of_table_cleaned_iff[OF a(1)] by blast
qed

theorem alias_set_cleaned_name_iff_witness:
  "detect_table_aliases insp_widgets
     = Inr [(''tbl_widgets'', [''widg'']),
            (''tbl_customer'', [''cust'', ''customer'', ''client''])]
   \<and> startswith (lower ''tbl_customer'') ''tbl_''
   \<and> clean_name ''tbl_customer'' = ''customer''
   \<and> clean_name ''tbl_customer'' \<in> set [''cust'', ''customer'', ''client'']
   \<and> list_ex (\<lambda>(full_name, alias_list).
                 (str_in full_name (clean_name ''tbl_customer'')
                    \<or> str_in (clean_name ''tbl_customer'') full_name)
                 \<and> clean_name ''tbl_customer'' \<in> set alias_list)
              business_aliases
   \<and> startswith (lower ''tbl_widgets'') ''tbl_''
   \<and> clean_name ''tbl_widgets'' \<notin> set [''widg'']
   \<and> \<not> list_ex (\<lambda>(full_name, alias_list).
                 (str_in full_name (clean_name ''tbl_widgets'')
                    \<or> str_in (clean_name ''tbl_widgets'') full_name)
                 \<and> clean_name ''tbl_widgets'' \<in> set alias_list)
              business_aliases"
proof -
  let ?m = "[(''tbl_widgets'', [''widg'']),
             (''tbl_customer'', [''cust'', ''customer'', ''client''])]"
  have d: "detect_table_aliases insp_widgets = Inr ?m" by code_simp
  have t: "''tbl_customer'' \<in> set (get_table_names insp_widgets)"
      "''tbl_widgets'' \<in> set (get_table_names insp_widgets)"
    by (simp_all add: insp_widgets_def)
  have p: "startswith (lower ''tbl_customer'') ''tbl_''"
      "startswith (lower ''tbl_widgets'') ''tbl_''" by code_simp+
  have c: "clean_name ''tbl_customer'' = ''customer''" by code_simp
  have m: "clean_name ''tbl_customer'' \<in> set [''cust'', ''customer'', ''client'']"
      "clean_name ''tbl_widgets'' \<notin> set [''widg'']" by code_simp+
  have m1: "map_of ?m ''tbl_customer'' = Some [''cust'', ''customer'', ''client'']"
      "map_of ?m ''tbl_widgets'' = Some [''widg'']" by simp_all
  from alias_set_cleaned_name_iff[of insp_widgets ?m "''tbl_customer''"] d t(1) p(1) m1(1) m(1)
  have 1: "list_ex (\<lambda>(full_name, alias_list).
                 (str_in full_name (clean_name ''tbl_customer'')
                    \<or> str_in (clean_name ''tbl_customer'') full_name)
                 \<and> clean_name ''tbl_customer'' \<in> set alias_list)
              business_aliases"
    by auto
  from alias_set_cleaned_name_iff[of insp_widgets ?m "''tbl_widgets''"] d t(2) p(2) m1(2) m(2)
  have 2: "\<not> list_ex (\<lambda>(full_name, alias_list).
                 (str_in full_name (clean_name ''tbl_widgets'')
                    \<or> str_in (clean_name ''tbl_widgets'') full_name)
                 \<and> clean_name ''tbl_widgets'' \<in> set alias_list)
              business_aliases"
    by auto
  show ?thesis using d p c m 1 2 by blast
qed

section \<open>Properties of the join clauses\<close>

lemma edge_join_left:
  "edge_join table from_tbl d = Inr j \<Longrightarrow> startswith j ''LEFT JOIN ''"
  by (auto simp: edge_join_def join_clause_def split: list.splits)

lemma indirect_joins_left:
  "indirect_joins path infos joins = Inr joins' \<Longrightarrow>
   \<forall>j\<in>set joins. startswith j ''LEFT JOIN '' \<Longrightarrow>
   \<forall>j\<in>set joins'. startswith j ''LEFT JOIN ''"
proof (induction path infos joins rule: indirect_joins.induct)
  case (1 from_tbl to_tbl rest joins)
  then show ?case by simp
next
  case (2 from_tbl to_tbl rest info infos joins)
  obtain j where j: "edge_join to_tbl from_tbl (join_condition info) = Inr j"
    using "2.prems"(1) by (cases "edge_join to_tbl from_tbl (join_condition info)") auto
  have "\<forall>x\<in>set (joins @ [j]). startswith x ''LEFT JOIN ''"
    using "2.prems"(2) edge_join_left[OF j] by simp
  then show ?case using "2.IH"[OF j] "2.prems"(1) j by simp
qed simp_all

lemma build_joins_loop_left:
  "build_joins_loop sp g main_table tables joins = Inr joins' \<Longrightarrow>
   \<forall>j\<in>set joins. startswith j ''LEFT JOIN '' \<Longrightarrow>
   \<forall>j\<in>set joins'. startswith j ''LEFT JOIN ''"
proof (induction tables arbitrary: joins)
  case Nil
  then show ?case by simp
next
  case (Cons table rest)
  show ?case
  proof (cases "find_relationships sp g main_table table")
    case Nil
    then show ?thesis using Cons by simp
  next
    case (Cons rel rels)
    note rels = Cons
    show ?thesis
    proof (cases rel)
      case (Direct path d)
      obtain j where j: "edge_join table main_table d = Inr j"
        using Cons.prems(1) rels Direct by (cases "edge_join table main_table d") auto
      have "\<forall>x\<in>set (joins @ [j]). startswith x ''LEFT JOIN ''"
        using Cons.prems(2) edge_join_left[OF j] by simp
      moreover have "build_joins_loop sp g main_table rest (joins @ [j]) = Inr joins'"
        using Cons.prems(1) rels Direct j by simp
      ultimately show ?thesis using Cons.IH by blast
    next
      case (Indirect path infos)
      obtain js where js: "indirect_joins path infos joins = Inr js"
        using Cons.prems(1) rels Indirect by (cases "indirect_joins path infos joins") auto
      have "\<forall>x\<in>set js. startswith x ''LEFT JOIN ''"
        using indirect_joins_left[OF js Cons.prems(2)] .
      moreover have "build_joins_loop sp g main_table rest js = Inr joins'"
        using Cons.prems(1) rels Indirect js by simp
      ultimately show ?thesis using Cons.IH by blast
    qed
  qed
qed

lemma find_relationships_direct_first:
  "get_edge_data g t1 t2 = Some d \<Longrightarrow>
   \<exists>rels. find_relationships sp g t1 t2 = Direct [t1, t2] d # rels"
  by (auto simp: find_relationships_def Let_def split: option.splits)

text \<open>
  Claim C8. For a list of no table or one table \<open>_build_joins\<close> returns the empty
  list; every clause of a list it returns begins with \<open>LEFT JOIN\<close>; and over a graph
  whose edge between \<open>orders\<close> and \<open>customers\<close> is the implicit edge on
  \<open>customer_id\<close> and \<open>id\<close>, the tables \<open>orders\<close>, \<open>customers\<close> give exactly the one
  clause that joins on this column pair, whatever the path finder answers.
\<close>

theorem joins_are_left_outer:
  "(length tables \<le> 1 \<longrightarrow> build_joins sp g tables = Inr [])
   \<and> (build_joins sp g tables = Inr joins
        \<longrightarrow> (\<forall>j\<in>set joins. startswith j ''LEFT JOIN ''))
   \<and> (get_edge_data g ''orders'' ''customers'' = Some customer_edge
        \<longrightarrow> build_joins sp g [''orders'', ''customers'']
            = Inr [''LEFT JOIN customers ON orders.customer_id = customers.id''])"
proof (intro conjI impI)
  assume "length tables \<le> 1"
  then show "build_joins sp g tables = Inr []" by (simp add: build_joins_def)
next
  assume r: "build_joins sp g tables = Inr joins"
  show "\<forall>j\<in>set joins. startswith j ''LEFT JOIN ''"
  proof (cases "length tables \<le> 1")
    case True
    then show ?thesis using r by (auto simp: build_joins_def)
  next
    case False
    then have "build_joins_loop sp g (hd tables) (tl tables) [] = Inr joins"
      using r by (simp add: build_joins_def)
    then show ?thesis using build_joins_loop_left[of sp g "hd tables" "tl tables" "[]" joins]
      by simp
  qed
next
  assume "get_edge_data g ''orders'' ''customers'' = Some customer_edge"
  then obtain rels where
    "find_relationships sp g ''orders'' ''customers''
       = Direct [''orders'', ''customers''] customer_edge # rels"
    using find_relationships_direct_first by blast
  then show "build_joins sp g [''orders'', ''customers'']
            = Inr [''LEFT JOIN customers ON orders.customer_id = customers.id'']"
    by (simp add: build_joins_def edge_join_def customer_edge_def join_clause_def)
qed

theorem joins_are_left_outer_witness:
  "build_joins (\<lambda>g a b. None) (build_relationship_graph insp_orders_customers) [''orders''] = Inr []
   \<and> build_joins (\<lambda>g a b. None) (build_relationship_graph insp_orders_customers)
        [''orders'', ''customers'']
      = Inr [''LEFT JOIN customers ON orders.customer_id = customers.id'']
   \<and> startswith ''LEFT JOIN customers ON orders.customer_id = customers.id'' ''LEFT JOIN ''"
proof -
  let ?g = "build_relationship_graph insp_orders_customers"
  let ?sp = "\<lambda>(g::graph) (a::string) (b::string). None :: string list option"
  have e: "get_edge_data ?g ''orders'' ''customers'' = Some customer_edge"
    by code_simp
  have l: "length [''orders''] \<le> 1" by simp
  from joins_are_left_outer[of "[''orders'']" ?sp ?g]
  have a: "build_joins ?sp ?g [''orders''] = Inr []" using l by blast
  from joins_are_left_outer[of "[''orders'', ''customers'']" ?sp ?g
      "[''LEFT JOIN customers ON orders.customer_id = customers.id'']"] e
  have b: "build_joins ?sp ?g [''orders'', ''customers'']
      = Inr [''LEFT JOIN customers ON orders.customer_id = customers.id'']"
    and c: "\<forall>j\<in>set [''LEFT JOIN customers ON orders.customer_id = customers.id''].
             startswith j ''LEFT JOIN ''"
    by blast+
  show ?thesis using a b c by simp
qed

section \<open>Properties of column extraction\<close>

text \<open>
  Claim C9. For every analysis and every table list, empty or not, the list that
  \<open>_extract_columns\<close> returns has at most ten entries: it is the first ten of the
  columns collected from the entities, the suggestions and the primary keys, and the
  rest is dropped.
\<close>

theorem extract_columns_at_most_ten:
  "length (extract_columns insp a tables) \<le> 10
   \<and> extract_columns insp a tables = take 10 (collected_columns insp a tables)"
  by (simp add: extract_columns_def)

theorem extract_columns_at_most_ten_witness:
  "length (collected_columns insp_widgets analysis_twelve_columns [''tbl_widgets'']) = 13
   \<and> length (extract_columns insp_widgets analysis_twelve_columns [''tbl_widgets'']) = 10
   \<and> extract_columns insp_widgets analysis_twelve_columns [''tbl_widgets'']
      = take 10 (collected_columns insp_widgets analysis_twelve_columns [''tbl_widgets''])"
proof -
  have "length (collected_columns insp_widgets analysis_twelve_columns [''tbl_widgets'']) = 13"
    by code_simp
  then show ?thesis
    using extract_columns_at_most_ten[of insp_widgets analysis_twelve_columns "[''tbl_widgets'']"]
    by simp
qed

section \<open>Properties of the analysis\<close>

lemma lower_append: "lower (a @ b) = lower a @ lower b"
  by (simp add: lower_def)

lemma str_in_lower:
  assumes "str_in w q" "lower w = w"
  shows "str_in w (lower q)"
proof -
  obtain a b where "q = a @ w @ b" using assms(1) by (auto simp: str_in_iff)
  then have "lower q = lower a @ w @ lower b" using assms(2) by (simp add: lower_append)
  then show ?thesis unfolding str_in_iff by blast
qed

lemma detect_function_keeps_aggregate:
  "a_intent a = ''aggregate'' \<Longrightarrow> a_intent (detect_function ql a func) = ''aggregate''"
  by (simp add: detect_function_def)

lemma detect_functions_keep_aggregate:
  "a_intent a = ''aggregate'' \<Longrightarrow> a_intent (foldl (detect_function ql) a funcs) = ''aggregate''"
  by (induction funcs arbitrary: a) (simp_all add: detect_function_keeps_aggregate)

lemma detect_functions_set_aggregate:
  assumes "w \<in> set funcs" "w \<in> set [''sum'', ''avg'', ''average'', ''max'', ''min'']"
    "str_in w ql"
  shows "a_intent (foldl (detect_function ql) a funcs) = ''aggregate''"
  using assms(1)
proof (induction funcs arbitrary: a)
  case Nil
  then show ?case by simp
next
  case (Cons f fs)
  show ?case
  proof (cases "f = w")
    case True
    then have "a_intent (detect_function ql a f) = ''aggregate''"
      using assms(2,3) by (simp add: detect_function_def)
    then show ?thesis by (simp add: detect_functions_keep_aggregate)
  next
    case False
    then have "w \<in> set fs" using Cons.prems by simp
    then show ?thesis using Cons.IH by simp
  qed
qed

lemma detect_aggregation_intent:
  assumes "w \<in> set [''sum'', ''avg'', ''max'', ''min'', ''average'']" "str_in w ql"
  shows "a_intent (detect_aggregation ql a) = ''aggregate''"
proof -
  have 1: "w \<in> set agg_functions" using assms(1) by (auto simp: agg_functions_def)
  have 2: "w \<in> set [''sum'', ''avg'', ''average'', ''max'', ''min'']" using assms(1) by auto
  show ?thesis unfolding detect_aggregation_def
    by (rule detect_functions_set_aggregate[OF 1 2 assms(2)])
qed

lemma detect_grouping_intent:
  assumes "w \<in> set [''by'', ''group'', ''each'', ''per'']" "str_in w ql"
  shows "a_intent (detect_grouping ql a) = ''group_by''"
proof -
  have "list_ex (\<lambda>word. str_in word ql) [''by'', ''group'', ''each'', ''per'']"
    unfolding list_ex_iff using assms by blast
  then show ?thesis by (simp add: detect_grouping_def)
qed

lemma lower_words:
  "w \<in> set [''sum'', ''avg'', ''max'', ''min'', ''average''] \<or> w \<in> set [''by'', ''group'', ''each'', ''per'']
   \<Longrightarrow> lower w = w"
  by (auto simp: lower_def lower_char_def is_ascii_upper_def is_latin1_upper_def)

text \<open>
  Claim C4. When the request contains one of the words sum, avg, max, min, average and
  one of the words by, group, each, per (as written or after lower-casing), the
  aggregation loop leaves the intent \<open>aggregate\<close>, whatever analysis it starts from,
  and the grouping test that follows makes the returned intent \<open>group_by\<close>.
\<close>

theorem grouping_overrides_aggregation:
  "(\<exists>w\<in>set [''sum'', ''avg'', ''max'', ''min'', ''average''].
        str_in w query \<or> str_in w (lower query))
   \<and> (\<exists>w\<in>set [''by'', ''group'', ''each'', ''per''].
        str_in w query \<or> str_in w (lower query))
   \<longrightarrow> (\<forall>a. a_intent (detect_aggregation (lower query) a) = ''aggregate'')
       \<and> a_intent (analyze_natural_query insp table_aliases query) = ''group_by''"
proof (intro impI)
  assume h: "(\<exists>w\<in>set [''sum'', ''avg'', ''max'', ''min'', ''average''].
        str_in w query \<or> str_in w (lower query))
   \<and> (\<exists>w\<in>set [''by'', ''group'', ''each'', ''per''].
        str_in w query \<or> str_in w (lower query))"
  then obtain wa where wa: "wa \<in> set [''sum'', ''avg'', ''max'', ''min'', ''average'']"
      "str_in wa query \<or> str_in wa (lower query)" by blast
  have wal: "str_in wa (lower query)"
    using wa str_in_lower[of wa query] lower_words[of wa] by blast
  from h obtain wg where wg: "wg \<in> set [''by'', ''group'', ''each'', ''per'']"
      "str_in wg query \<or> str_in wg (lower query)" by blast
  have wgl: "str_in wg (lower query)"
    using wg str_in_lower[of wg query] lower_words[of wg] by blast
  have 1: "\<forall>a. a_intent (detect_aggregation (lower query) a) = ''aggregate''"
    using detect_aggregation_intent[OF wa(1) wal] by blast
  have 2: "a_intent (analyze_natural_query insp table_aliases query) = ''group_by''"
    unfolding analyze_natural_query_def Let_def
    by (rule detect_grouping_intent[OF wg(1) wgl])
  show "(\<forall>a. a_intent (detect_aggregation (lower query) a) = ''aggregate'')
       \<and> a_intent (analyze_natural_query insp table_aliases query) = ''group_by''"
    using 1 2 by blast
qed

theorem grouping_overrides_aggregation_witness:
  "str_in ''sum'' ''Sum of totals per customer''  = False
   \<and> str_in ''sum'' (lower ''Sum of totals per customer'')
   \<and> str_in ''per'' ''Sum of totals per customer''
   \<and> a_intent (analyze_natural_query insp_orders_customers [] ''Sum of totals per customer'')
      = ''group_by''"
proof -
  have a: "str_in ''sum'' (lower ''Sum of totals per customer'')" by code_simp
  have b: "str_in ''per'' ''Sum of totals per customer''" by code_simp
  have c: "str_in ''sum'' ''Sum of totals per customer'' = False" by code_simp
  have ha: "\<exists>w\<in>set [''sum'', ''avg'', ''max'', ''min'', ''average''].
        str_in w ''Sum of totals per customer'' \<or> str_in w (lower ''Sum of totals per customer'')"
    using a by simp
  have hb: "\<exists>w\<in>set [''by'', ''group'', ''each'', ''per''].
        str_in w ''Sum of totals per customer'' \<or> str_in w (lower ''Sum of totals per customer'')"
    using b by simp
  show ?thesis
    using a b c ha hb
      grouping_overrides_aggregation[of "''Sum of totals per customer''" insp_orders_customers "[]"]
    by blast
qed

subsection \<open>The confidence\<close>

text \<open>The literals 0.2 and 0.5 as binary64 numbers, and the sums of the accumulation.\<close>

lemma literal_two_tenths: "float_literal (2 / 10) = 3602879701896397 / 18014398509481984"
  by code_simp

lemma literal_five_tenths: "float_literal (5 / 10) = 1 / 2"
  by code_simp

lemma confidence_after_0: "confidence_after 0 = 1 / 2"
  by (simp only: confidence_after_def funpow.simps id_apply literal_five_tenths)

lemma confidence_after_Suc:
  "confidence_after (Suc n) = float_add (confidence_after n) (3602879701896397 / 18014398509481984)"
  by (simp only: confidence_after_def funpow.simps o_apply add_two_tenths_def
      literal_two_tenths)

lemma float_sum_1: "float_add (1 / 2) (3602879701896397 / 18014398509481984) = 3152519739159347 / 4503599627370496"
  by code_simp

lemma float_sum_2: "float_add (3152519739159347 / 4503599627370496) (3602879701896397 / 18014398509481984) = 2026619832316723 / 2251799813685248"
  by code_simp

lemma float_sum_3: "float_add (2026619832316723 / 2251799813685248) (3602879701896397 / 18014398509481984) = 4953959590107545 / 4503599627370496"
  by code_simp

lemma float_sum_4: "float_add (4953959590107545 / 4503599627370496) (3602879701896397 / 18014398509481984) = 1463669878895411 / 1125899906842624"
  by code_simp

lemma float_sum_5: "float_add (1463669878895411 / 1125899906842624) (3602879701896397 / 18014398509481984) = 6755399441055743 / 4503599627370496"
  by code_simp

lemma float_sum_6: "float_add (6755399441055743 / 4503599627370496) (3602879701896397 / 18014398509481984) = 3828059683264921 / 2251799813685248"
  by code_simp

lemma float_sum_7: "float_add (3828059683264921 / 2251799813685248) (3602879701896397 / 18014398509481984) = 8556839292003941 / 4503599627370496"
  by code_simp

lemma float_sum_8: "float_add (8556839292003941 / 4503599627370496) (3602879701896397 / 18014398509481984) = 1182194902184755 / 562949953421312"
  by code_simp

lemma float_sum_9: "float_add (1182194902184755 / 562949953421312) (3602879701896397 / 18014398509481984) = 2589569785738035 / 1125899906842624"
  by code_simp

lemma float_sum_10: "float_add (2589569785738035 / 1125899906842624) (3602879701896397 / 18014398509481984) = 5 / 2"
  by code_simp

lemma float_sum_11: "float_add (5 / 2) (3602879701896397 / 18014398509481984) = 3039929748475085 / 1125899906842624"
  by code_simp

lemma float_sum_12: "float_add (3039929748475085 / 1125899906842624) (3602879701896397 / 18014398509481984) = 1632554864921805 / 562949953421312"
  by code_simp

lemma float_sum_13: "float_add (1632554864921805 / 562949953421312) (3602879701896397 / 18014398509481984) = 3490289711212135 / 1125899906842624"
  by code_simp

lemma float_sum_14: "float_add (3490289711212135 / 1125899906842624) (3602879701896397 / 18014398509481984) = 928867423145165 / 281474976710656"
  by code_simp

lemma float_sum_15: "float_add (928867423145165 / 281474976710656) (3602879701896397 / 18014398509481984) = 3940649673949185 / 1125899906842624"
  by code_simp

lemma float_sum_16: "float_add (3940649673949185 / 1125899906842624) (3602879701896397 / 18014398509481984) = 2082914827658855 / 562949953421312"
  by code_simp

lemma float_sum_17: "float_add (2082914827658855 / 562949953421312) (3602879701896397 / 18014398509481984) = 4391009636686235 / 1125899906842624"
  by code_simp

lemma float_sum_18: "float_add (4391009636686235 / 1125899906842624) (3602879701896397 / 18014398509481984) = 577023702256845 / 140737488355328"
  by code_simp

lemma float_sum_19: "float_add (577023702256845 / 140737488355328) (3602879701896397 / 18014398509481984) = 4841369599423285 / 1125899906842624"
  by code_simp

lemma float_sum_20: "float_add (4841369599423285 / 1125899906842624) (3602879701896397 / 18014398509481984) = 2533274790395905 / 562949953421312"
  by code_simp

lemma float_sum_21: "float_add (2533274790395905 / 562949953421312) (3602879701896397 / 18014398509481984) = 5291729562160335 / 1125899906842624"
  by code_simp

lemma float_sum_22: "float_add (5291729562160335 / 1125899906842624) (3602879701896397 / 18014398509481984) = 1379227385882215 / 281474976710656"
  by code_simp

lemma confidence_after_1: "confidence_after 1 = 3152519739159347 / 4503599627370496"
proof -
  have "confidence_after 1 = confidence_after (Suc 0)"
    by (rule arg_cong[where f = confidence_after]) simp
  also have "\<dots> = float_add (confidence_after 0) (3602879701896397 / 18014398509481984)"
    by (rule confidence_after_Suc)
  also have "\<dots> = 3152519739159347 / 4503599627370496"
    unfolding confidence_after_0 by (rule float_sum_1)
  finally show ?thesis .
qed

lemma confidence_after_2: "confidence_after 2 = 2026619832316723 / 2251799813685248"
proof -
  have "confidence_after 2 = confidence_after (Suc 1)"
    by (rule arg_cong[where f = confidence_after]) simp
  also have "\<dots> = float_add (confidence_after 1) (3602879701896397 / 18014398509481984)"
    by (rule confidence_after_Suc)
  also have "\<dots> = 2026619832316723 / 2251799813685248"
    unfolding confidence_after_1 by (rule float_sum_2)
  finally show ?thesis .
qed

lemma confidence_after_3: "confidence_after 3 = 4953959590107545 / 4503599627370496"
proof -
  have "confidence_after 3 = confidence_after (Suc 2)"
    by (rule arg_cong[where f = confidence_after]) simp
  also have "\<dots> = float_add (confidence_after 2) (3602879701896397 / 18014398509481984)"
    by (rule confidence_after_Suc)
  also have "\<dots> = 4953959590107545 / 4503599627370496"
    unfolding confidence_after_2 by (rule float_sum_3)
  finally show ?thesis .
qed

lemma confidence_after_4: "confidence_after 4 = 1463669878895411 / 1125899906842624"
proof -
  have "confidence_after 4 = confidence_after (Suc 3)"
    by (rule arg_cong[where f = confidence_after]) simp
  also have "\<dots> = float_add (confidence_after 3) (3602879701896397 / 18014398509481984)"
    by (rule confidence_after_Suc)
  also have "\<dots> = 1463669878895411 / 1125899906842624"
    unfolding confidence_after_3 by (rule float_sum_4)
  finally show ?thesis .
qed

lemma confidence_after_5: "confidence_after 5 = 6755399441055743 / 4503599627370496"
proof -
  have "confidence_after 5 = confidence_after (Suc 4)"
    by (rule arg_cong[where f = confidence_after]) simp
  also have "\<dots> = float_add (confidence_after 4) (3602879701896397 / 18014398509481984)"
    by (rule confidence_after_Suc)
  also have "\<dots> = 6755399441055743 / 4503599627370496"
    unfolding confidence_after_4 by (rule float_sum_5)
  finally show ?thesis .
qed

lemma confidence_after_6: "confidence_after 6 = 3828059683264921 / 2251799813685248"
proof -
  have "confidence_after 6 = confidence_after (Suc 5)"
    by (rule arg_cong[where f = confidence_after]) simp
  also have "\<dots> = float_add (confidence_after 5) (3602879701896397 / 18014398509481984)"
    by (rule confidence_after_Suc)
  also have "\<dots> = 3828059683264921 / 2251799813685248"
    unfolding confidence_after_5 by (rule float_sum_6)
  finally show ?thesis .
qed

lemma confidence_after_7: "confidence_after 7 = 8556839292003941 / 4503599627370496"
proof -
  have "confidence_after 7 = confidence_after (Suc 6)"
    by (rule arg_cong[where f = confidence_after]) simp
  also have "\<dots> = float_add (confidence_after 6) (3602879701896397 / 18014398509481984)"
    by (rule confidence_after_Suc)
  also have "\<dots> = 8556839292003941 / 4503599627370496"
    unfolding confidence_after_6 by (rule float_sum_7)
  finally show ?thesis .
qed

lemma confidence_after_8: "confidence_after 8 = 1182194902184755 / 562949953421312"
proof -
  have "confidence_after 8 = confidence_after (Suc 7)"
    by (rule arg_cong[where f = confidence_after]) simp
  also have "\<dots> = float_add (confidence_after 7) (3602879701896397 / 18014398509481984)"
    by (rule confidence_after_Suc)
  also have "\<dots> = 1182194902184755 / 562949953421312"
    unfolding confidence_after_7 by (rule float_sum_8)
  finally show ?thesis .
qed

lemma confidence_after_9: "confidence_after 9 = 2589569785738035 / 1125899906842624"
proof -
  have "confidence_after 9 = confidence_after (Suc 8)"
    by (rule arg_cong[where f = confidence_after]) simp
  also have "\<dots> = float_add (confidence_after 8) (3602879701896397 / 18014398509481984)"
    by (rule confidence_after_Suc)
  also have "\<dots> = 2589569785738035 / 1125899906842624"
    unfolding confidence_after_8 by (rule float_sum_9)
  finally show ?thesis .
qed

lemma confidence_after_10: "confidence_after 10 = 5 / 2"
proof -
  have "confidence_after 10 = confidence_after (Suc 9)"
    by (rule arg_cong[where f = confidence_after]) simp
  also have "\<dots> = float_add (confidence_after 9) (3602879701896397 / 18014398509481984)"
    by (rule confidence_after_Suc)
  also have "\<dots> = 5 / 2"
    unfolding confidence_after_9 by (rule float_sum_10)
  finally show ?thesis .
qed

lemma confidence_after_11: "confidence_after 11 = 3039929748475085 / 1125899906842624"
proof -
  have "confidence_after 11 = confidence_after (Suc 10)"
    by (rule arg_cong[where f = confidence_after]) simp
  also have "\<dots> = float_add (confidence_after 10) (3602879701896397 / 18014398509481984)"
    by (rule confidence_after_Suc)
  also have "\<dots> = 3039929748475085 / 1125899906842624"
    unfolding confidence_after_10 by (rule float_sum_11)
  finally show ?thesis .
qed

lemma confidence_after_12: "confidence_after 12 = 1632554864921805 / 562949953421312"
proof -
  have "confidence_after 12 = confidence_after (Suc 11)"
    by (rule arg_cong[where f = confidence_after]) simp
  also have "\<dots> = float_add (confidence_after 11) (3602879701896397 / 18014398509481984)"
    by (rule confidence_after_Suc)
  also have "\<dots> = 1632554864921805 / 562949953421312"
    unfolding confidence_after_11 by (rule float_sum_12)
  finally show ?thesis .
qed

lemma confidence_after_13: "confidence_after 13 = 3490289711212135 / 1125899906842624"
proof -
  have "confidence_after 13 = confidence_after (Suc 12)"
    by (rule arg_cong[where f = confidence_after]) simp
  also have "\<dots> = float_add (confidence_after 12) (3602879701896397 / 18014398509481984)"
    by (rule confidence_after_Suc)
  also have "\<dots> = 3490289711212135 / 1125899906842624"
    unfolding confidence_after_12 by (rule float_sum_13)
  finally show ?thesis .
qed

lemma confidence_after_14: "confidence_after 14 = 928867423145165 / 281474976710656"
proof -
  have "confidence_after 14 = confidence_after (Suc 13)"
    by (rule arg_cong[where f = confidence_after]) simp
  also have "\<dots> = float_add (confidence_after 13) (3602879701896397 / 18014398509481984)"
    by (rule confidence_after_Suc)
  also have "\<dots> = 928867423145165 / 281474976710656"
    unfolding confidence_after_13 by (rule float_sum_14)
  finally show ?thesis .
qed

lemma confidence_after_15: "confidence_after 15 = 3940649673949185 / 1125899906842624"
proof -
  have "confidence_after 15 = confidence_after (Suc 14)"
    by (rule arg_cong[where f = confidence_after]) simp
  also have "\<dots> = float_add (confidence_after 14) (3602879701896397 / 18014398509481984)"
    by (rule confidence_after_Suc)
  also have "\<dots> = 3940649673949185 / 1125899906842624"
    unfolding confidence_after_14 by (rule float_sum_15)
  finally show ?thesis .
qed

lemma confidence_after_16: "confidence_after 16 = 2082914827658855 / 562949953421312"
proof -
  have "confidence_after 16 = confidence_after (Suc 15)"
    by (rule arg_cong[where f = confidence_after]) simp
  also have "\<dots> = float_add (confidence_after 15) (3602879701896397 / 18014398509481984)"
    by (rule confidence_after_Suc)
  also have "\<dots> = 2082914827658855 / 562949953421312"
    unfolding confidence_after_15 by (rule float_sum_16)
  finally show ?thesis .
qed

lemma confidence_after_17: "confidence_after 17 = 4391009636686235 / 1125899906842624"
proof -
  have "confidence_after 17 = confidence_after (Suc 16)"
    by (rule arg_cong[where f = confidence_after]) simp
  also have "\<dots> = float_add (confidence_after 16) (3602879701896397 / 18014398509481984)"
    by (rule confidence_after_Suc)
  also have "\<dots> = 4391009636686235 / 1125899906842624"
    unfolding confidence_after_16 by (rule float_sum_17)
  finally show ?thesis .
qed

lemma confidence_after_18: "confidence_after 18 = 577023702256845 / 140737488355328"
proof -
  have "confidence_after 18 = confidence_after (Suc 17)"
    by (rule arg_cong[where f = confidence_after]) simp
  also have "\<dots> = float_add (confidence_after 17) (3602879701896397 / 18014398509481984)"
    by (rule confidence_after_Suc)
  also have "\<dots> = 577023702256845 / 140737488355328"
    unfolding confidence_after_17 by (rule float_sum_18)
  finally show ?thesis .
qed

lemma confidence_after_19: "confidence_after 19 = 4841369599423285 / 1125899906842624"
proof -
  have "confidence_after 19 = confidence_after (Suc 18)"
    by (rule arg_cong[where f = confidence_after]) simp
  also have "\<dots> = float_add (confidence_after 18) (3602879701896397 / 18014398509481984)"
    by (rule confidence_after_Suc)
  also have "\<dots> = 4841369599423285 / 1125899906842624"
    unfolding confidence_after_18 by (rule float_sum_19)
  finally show ?thesis .
qed

lemma confidence_after_20: "confidence_after 20 = 2533274790395905 / 562949953421312"
proof -
  have "confidence_after 20 = confidence_after (Suc 19)"
    by (rule arg_cong[where f = confidence_after]) simp
  also have "\<dots> = float_add (confidence_after 19) (3602879701896397 / 18014398509481984)"
    by (rule confidence_after_Suc)
  also have "\<dots> = 2533274790395905 / 562949953421312"
    unfolding confidence_after_19 by (rule float_sum_20)
  finally show ?thesis .
qed

lemma confidence_after_21: "confidence_after 21 = 5291729562160335 / 1125899906842624"
proof -
  have "confidence_after 21 = confidence_after (Suc 20)"
    by (rule arg_cong[where f = confidence_after]) simp
  also have "\<dots> = float_add (confidence_after 20) (3602879701896397 / 18014398509481984)"
    by (rule confidence_after_Suc)
  also have "\<dots> = 5291729562160335 / 1125899906842624"
    unfolding confidence_after_20 by (rule float_sum_21)
  finally show ?thesis .
qed

lemma confidence_after_22: "confidence_after 22 = 1379227385882215 / 281474976710656"
proof -
  have "confidence_after 22 = confidence_after (Suc 21)"
    by (rule arg_cong[where f = confidence_after]) simp
  also have "\<dots> = float_add (confidence_after 21) (3602879701896397 / 18014398509481984)"
    by (rule confidence_after_Suc)
  also have "\<dots> = 1379227385882215 / 281474976710656"
    unfolding confidence_after_21 by (rule float_sum_22)
  finally show ?thesis .
qed

lemma confidence_after_above_one:
  assumes "3 \<le> n" "n \<le> 22"
  shows "1 < confidence_after n"
proof -
  have "n = 3 \<or> n = 4 \<or> n = 5 \<or> n = 6 \<or> n = 7 \<or> n = 8 \<or> n = 9 \<or> n = 10 \<or> n = 11 \<or> n = 12 \<or> n = 13 \<or> n = 14 \<or> n = 15 \<or> n = 16 \<or> n = 17 \<or> n = 18 \<or> n = 19 \<or> n = 20 \<or> n = 21 \<or> n = 22"
    using assms by arith
  then show ?thesis
    by (elim disjE)
       (simp_all add: confidence_after_3 confidence_after_4 confidence_after_5 confidence_after_6
         confidence_after_7 confidence_after_8 confidence_after_9 confidence_after_10
         confidence_after_11 confidence_after_12 confidence_after_13 confidence_after_14
         confidence_after_15 confidence_after_16 confidence_after_17 confidence_after_18
         confidence_after_19 confidence_after_20 confidence_after_21 confidence_after_22)
qed

text \<open>The keyword loops add 0.2 once for every keyword that occurs.\<close>

lemma funpow_after: "(f ^^ m) ((f ^^ n) x) = (f ^^ (n + m)) x"
  by (simp add: funpow_add add.commute)

lemma detect_keyword_confidence:
  "a_confidence (detect_keyword ql i a k)
     = (if str_in k ql then add_two_tenths (a_confidence a) else a_confidence a)"
  by (simp add: detect_keyword_def add_two_tenths_def)

lemma detect_keywords_confidence:
  "a_confidence (foldl (detect_keyword ql i) a kws)
     = (add_two_tenths ^^ length (filter (\<lambda>k. str_in k ql) kws)) (a_confidence a)"
proof (induction kws arbitrary: a)
  case Nil
  then show ?case by simp
next
  case (Cons k kws)
  show ?case
    by (simp add: Cons.IH detect_keyword_confidence funpow_swap1)
qed

lemma detect_patterns_confidence:
  "a_confidence (foldl (\<lambda>a (i, kws). foldl (detect_keyword ql i) a kws) a ps)
     = (add_two_tenths
          ^^ length (filter (\<lambda>(i, k). str_in k ql)
                       (concat (map (\<lambda>(i, kws). map (Pair i) kws) ps)))) (a_confidence a)"
proof (induction ps arbitrary: a)
  case Nil
  then show ?case by simp
next
  case (Cons p ps)
  obtain i kws where p: "p = (i, kws)" by (cases p)
  show ?case
    by (simp add: p Cons.IH detect_keywords_confidence comp_def funpow_after)
qed

lemma detect_intent_confidence:
  "a_confidence (detect_intent (lower query) a)
     = (add_two_tenths ^^ length (matched_pairs query)) (a_confidence a)"
  unfolding detect_intent_def matched_pairs_def keyword_pairs_def
  by (rule detect_patterns_confidence)

lemma detect_aggregation_confidence:
  "a_confidence (detect_aggregation ql a) = a_confidence a"
proof -
  have "a_confidence (foldl (detect_function ql) a funcs) = a_confidence a" for funcs
    by (induction funcs arbitrary: a) (simp_all add: detect_function_def)
  then show ?thesis by (simp add: detect_aggregation_def)
qed

lemma detect_grouping_confidence:
  "a_confidence (detect_grouping ql a) = a_confidence a"
  by (simp add: detect_grouping_def)

lemma analyze_confidence:
  "a_confidence (analyze_natural_query insp table_aliases query)
     = confidence_after (length (matched_pairs query))"
  by (simp add: analyze_natural_query_def Let_def detect_grouping_confidence
      detect_aggregation_confidence detect_intent_confidence confidence_after_def)

lemma matched_pairs_at_most: "length (matched_pairs query) \<le> 22"
proof -
  have "length keyword_pairs = 22" by (simp add: keyword_pairs_def query_patterns_def)
  moreover have "length (matched_pairs query) \<le> length keyword_pairs"
    unfolding matched_pairs_def by (rule length_filter_le)
  ultimately show ?thesis by simp
qed

text \<open>
  Claim C5. The confidence returned by the analyzer is 0.5 with 0.2 added once for every
  (intent, keyword) pair whose keyword occurs in the lower-cased request, in the float
  arithmetic of the code: two matches give 0.8999999999999999 and three give
  1.0999999999999999. Nothing caps it, so three or more matching pairs give a
  confidence above 1, as the request \<open>show list get\<close> does.
\<close>

theorem confidence_is_uncapped:
  "a_confidence (analyze_natural_query insp table_aliases query)
     = confidence_after (length (matched_pairs query))
   \<and> confidence_after 0 = 1 / 2
   \<and> confidence_after 2 = 2026619832316723 / 2251799813685248
   \<and> confidence_after 3 = 4953959590107545 / 4503599627370496
   \<and> (3 \<le> length (matched_pairs query)
        \<longrightarrow> 1 < a_confidence (analyze_natural_query insp table_aliases query))
   \<and> length (matched_pairs ''show list get'') = 3
   \<and> 1 < a_confidence (analyze_natural_query insp table_aliases ''show list get'')"
proof (intro conjI impI)
  show "a_confidence (analyze_natural_query insp table_aliases query)
     = confidence_after (length (matched_pairs query))"
    by (rule analyze_confidence)
  show "confidence_after 0 = 1 / 2" by (rule confidence_after_0)
  show "confidence_after 2 = 2026619832316723 / 2251799813685248" by (rule confidence_after_2)
  show "confidence_after 3 = 4953959590107545 / 4503599627370496" by (rule confidence_after_3)
  show "1 < a_confidence (analyze_natural_query insp table_aliases query)"
    if "3 \<le> length (matched_pairs query)"
    unfolding analyze_confidence
    using that matched_pairs_at_most by (rule confidence_after_above_one)
  show 3: "length (matched_pairs ''show list get'') = 3" by code_simp
  show "1 < a_confidence (analyze_natural_query insp table_aliases ''show list get'')"
    unfolding analyze_confidence 3 by (simp add: confidence_after_3)
qed

theorem confidence_is_uncapped_witness:
  "3 \<le> length (matched_pairs ''how many in total'')
   \<and> a_confidence (analyze_natural_query insp_orders_customers [] ''how many in total'')
      = 4953959590107545 / 4503599627370496
   \<and> 1 < a_confidence (analyze_natural_query insp_orders_customers [] ''how many in total'')"
proof -
  have 3: "length (matched_pairs ''how many in total'') = 3" by code_simp
  show ?thesis
    using 3 confidence_is_uncapped[of insp_orders_customers "[]" "''how many in total''"]
    by simp
qed

section \<open>Properties of the statement\<close>

lemma strip_unchanged:
  assumes "s \<noteq> []" "\<not> is_space (hd s)" "\<not> is_space (last s)"
  shows "strip s = s"
proof -
  have 1: "dropWhile is_space s = s" using assms(1,2) by (cases s) auto
  have "rev s \<noteq> []" "\<not> is_space (hd (rev s))" using assms(1,3) by (simp_all add: hd_rev)
  then have 2: "dropWhile is_space (rev s) = rev s" by (cases "rev s") auto
  show ?thesis by (simp add: strip_def 1 2)
qed

lemma select_clause_starts:
  "\<exists>r. select_clause insp intent_name tables columns a = ''SELECT'' @ r"
  by (auto simp: select_clause_def split: list.splits)

lemma statement_body_starts:
  "\<exists>r. statement_body insp intent_name tables columns joins conditions a = CHR ''S'' # r"
proof -
  obtain r where "select_clause insp intent_name tables columns a = ''SELECT'' @ r"
    using select_clause_starts by blast
  then show ?thesis by (simp add: statement_body_def)
qed

lemma limited_statement:
  "strip (statement_body insp intent_name tables columns joins conditions a @ '' LIMIT 10'')
     = statement_body insp intent_name tables columns joins conditions a @ '' LIMIT 10''"
proof -
  obtain r where r: "statement_body insp intent_name tables columns joins conditions a = CHR ''S'' # r"
    using statement_body_starts by blast
  have s: "\<not> is_space (CHR ''S'')" "\<not> is_space (CHR ''0'')" by (simp_all add: is_space_def)
  show ?thesis
    by (rule strip_unchanged) (simp_all add: r s)
qed

lemma words_from_part:
  "w \<in> set (words_from cur s) \<Longrightarrow> \<exists>a b. cur @ s = a @ w @ b"
proof (induction s arbitrary: cur)
  case Nil
  then have "w = cur" by (auto split: if_splits)
  then have "cur @ [] = [] @ w @ []" by simp
  then show ?case by blast
next
  case (Cons c cs)
  show ?case
  proof (cases "is_space c")
    case False
    then have "w \<in> set (words_from (cur @ [c]) cs)" using Cons.prems by simp
    then obtain a b where "(cur @ [c]) @ cs = a @ w @ b" using Cons.IH by blast
    then have "cur @ c # cs = a @ w @ b" by simp
    then show ?thesis by blast
  next
    case True
    then consider "w = cur" | "w \<in> set (words_from [] cs)"
      using Cons.prems by (auto split: if_splits)
    then show ?thesis
    proof cases
      case 1
      then have "cur @ c # cs = [] @ w @ (c # cs)" by simp
      then show ?thesis by blast
    next
      case 2
      then obtain a b where "[] @ cs = a @ w @ b" using Cons.IH by blast
      then have "cur @ c # cs = (cur @ c # a) @ w @ b" by simp
      then show ?thesis by blast
    qed
  qed
qed

lemma word_all_occurs:
  assumes "''all'' \<in> set (text_words q)"
  shows "str_in ''all'' (lower q)"
proof -
  have "str_in ''all'' q"
    using words_from_part[of "''all''" "[]" q] assms by (simp add: text_words_def str_in_iff)
  moreover have "lower ''all'' = ''all''" by code_simp
  ultimately show ?thesis by (rule str_in_lower)
qed

lemma detect_keyword_intent:
  "a_intent (detect_keyword ql i a k) = (if str_in k ql then i else a_intent a)"
  by (simp add: detect_keyword_def)

lemma detect_keywords_intent:
  "a_intent (foldl (detect_keyword ql i) a kws)
     = (if list_ex (\<lambda>k. str_in k ql) kws then i else a_intent a)"
  by (induction kws arbitrary: a) (simp_all add: detect_keyword_intent)

lemma detect_patterns_intent:
  "a_intent (foldl (\<lambda>a (i, kws). foldl (detect_keyword ql i) a kws) a ps)
     = foldl (\<lambda>r (i, kws). if list_ex (\<lambda>k. str_in k ql) kws then i else r) (a_intent a) ps"
proof (induction ps arbitrary: a)
  case Nil
  then show ?case by simp
next
  case (Cons p ps)
  obtain i kws where p: "p = (i, kws)" by (cases p)
  show ?case by (simp add: p Cons.IH detect_keywords_intent)
qed

lemma detect_functions_intent:
  "a_intent (foldl (detect_function ql) a funcs)
     = (if list_ex (\<lambda>f. str_in f ql \<and> f \<in> set [''sum'', ''avg'', ''average'', ''max'', ''min''])
             funcs
        then ''aggregate'' else a_intent a)"
  by (induction funcs arbitrary: a) (simp_all add: detect_function_def)

lemma detect_functions_original_query:
  "a_original_query (foldl (detect_function ql) a funcs) = a_original_query a"
  by (induction funcs arbitrary: a) (simp_all add: detect_function_def)

lemma detect_keywords_original_query:
  "a_original_query (foldl (detect_keyword ql i) a kws) = a_original_query a"
  by (induction kws arbitrary: a) (simp_all add: detect_keyword_def)

lemma detect_patterns_original_query:
  "a_original_query (foldl (\<lambda>a (i, kws). foldl (detect_keyword ql i) a kws) a ps)
     = a_original_query a"
proof (induction ps arbitrary: a)
  case Nil
  then show ?case by simp
next
  case (Cons p ps)
  obtain i kws where p: "p = (i, kws)" by (cases p)
  show ?case by (simp add: p Cons.IH detect_keywords_original_query)
qed

lemma analyze_original_query:
  "a_original_query (analyze_natural_query insp table_aliases query) = query"
  by (simp add: analyze_natural_query_def Let_def detect_grouping_def detect_aggregation_def
      detect_intent_def detect_functions_original_query detect_patterns_original_query)

lemma analyze_intent:
  "a_intent (analyze_natural_query insp table_aliases query)
     = (if list_ex (\<lambda>word. str_in word (lower query)) [''by'', ''group'', ''each'', ''per'']
        then ''group_by''
        else if list_ex (\<lambda>f. str_in f (lower query)
                          \<and> f \<in> set [''sum'', ''avg'', ''average'', ''max'', ''min''])
                  agg_functions
        then ''aggregate''
        else foldl (\<lambda>r (i, kws). if list_ex (\<lambda>k. str_in k (lower query)) kws then i else r)
               ''list'' query_patterns)"
  by (simp add: analyze_natural_query_def Let_def detect_grouping_def detect_aggregation_def
      detect_intent_def detect_functions_intent detect_patterns_intent)

lemma statement_body_orders_id:
  "statement_body insp ''list'' [''orders''] [''orders.id''] [] [] a
     = ''SELECT orders.id FROM orders''"
  by (simp add: statement_body_def select_clause_def)

text \<open>
  Claim C6 as stated fails in two ways. For the request \<open>show widgets\<close> the intent is
  \<open>list\<close> and the request does not hold the word \<open>all\<close>, but with no table resolved
  the statement is \<open>SELECT 1\<close>, which does not end with \<open>LIMIT 10\<close>. For the request
  \<open>show small orders\<close> the intent is \<open>list\<close>, a table is resolved and no word of the
  request is \<open>all\<close>, but the letters occur inside \<open>small\<close> and the statement gets no
  \<open>LIMIT 10\<close>.
\<close>

theorem list_statement_without_limit:
  "a_intent (analyze_natural_query insp_orders_customers [] ''show widgets'') = ''list''
   \<and> ''all'' \<notin> set (text_words ''show widgets'')
   \<and> construct_sql insp_orders_customers
        (a_intent (analyze_natural_query insp_orders_customers [] ''show widgets''))
        [] [] [] [] (analyze_natural_query insp_orders_customers [] ''show widgets'')
      = ''SELECT 1''
   \<and> \<not> endswith ''SELECT 1'' '' LIMIT 10''
   \<and> a_intent (analyze_natural_query insp_orders_customers [] ''show small orders'') = ''list''
   \<and> ''all'' \<notin> set (text_words ''show small orders'')
   \<and> construct_sql insp_orders_customers
        (a_intent (analyze_natural_query insp_orders_customers [] ''show small orders''))
        [''orders''] [''orders.id''] [] []
        (analyze_natural_query insp_orders_customers [] ''show small orders'')
      = ''SELECT orders.id FROM orders''
   \<and> \<not> endswith ''SELECT orders.id FROM orders'' '' LIMIT 10''"
proof -
  let ?a = "analyze_natural_query insp_orders_customers [] ''show widgets''"
  let ?b = "analyze_natural_query insp_orders_customers [] ''show small orders''"
  have i1: "a_intent ?a = ''list''" unfolding analyze_intent by code_simp
  have i2: "a_intent ?b = ''list''" unfolding analyze_intent by code_simp
  have w1: "''all'' \<notin> set (text_words ''show widgets'')" by code_simp
  have w2: "''all'' \<notin> set (text_words ''show small orders'')" by code_simp
  have s1: "construct_sql insp_orders_customers ''list'' [] [] [] [] ?a = ''SELECT 1''"
    by (simp add: construct_sql_def)
  have l: "str_in ''all'' (lower ''show small orders'')" by code_simp
  have t: "strip ''SELECT orders.id FROM orders'' = ''SELECT orders.id FROM orders''"
    by code_simp
  have s2: "construct_sql insp_orders_customers ''list'' [''orders''] [''orders.id''] [] [] ?b
              = ''SELECT orders.id FROM orders''"
    using l
    by (simp add: construct_sql_def limit_clause_def analyze_original_query
        statement_body_orders_id t)
  have e1: "\<not> endswith ''SELECT 1'' '' LIMIT 10''" by code_simp
  have e2: "\<not> endswith ''SELECT orders.id FROM orders'' '' LIMIT 10''" by code_simp
  show ?thesis unfolding i1 i2 using i1 i2 w1 w2 s1 s2 e1 e2 by blast
qed

text \<open>
  Claim C6, amended. For the intent \<open>list\<close> and a table list that is not empty, the
  statement is the assembled clauses followed by \<open>LIMIT 10\<close> unless the letters \<open>all\<close>
  occur anywhere in the lower-cased request; when they occur, and so whenever the word
  \<open>all\<close> is in the request, the statement is the assembled clauses alone. For an empty
  table list the statement is \<open>SELECT 1\<close>.
\<close>

theorem list_statement_limit:
  "(tables \<noteq> [] \<and> \<not> str_in ''all'' (lower (a_original_query a))
      \<longrightarrow> construct_sql insp ''list'' tables columns joins conditions a
            = statement_body insp ''list'' tables columns joins conditions a @ '' LIMIT 10''
          \<and> endswith (construct_sql insp ''list'' tables columns joins conditions a)
               '' LIMIT 10'')
   \<and> (tables \<noteq> [] \<and> str_in ''all'' (lower (a_original_query a))
      \<longrightarrow> construct_sql insp ''list'' tables columns joins conditions a
            = strip (statement_body insp ''list'' tables columns joins conditions a))
   \<and> (tables \<noteq> [] \<and> ''all'' \<in> set (text_words (a_original_query a))
      \<longrightarrow> construct_sql insp ''list'' tables columns joins conditions a
            = strip (statement_body insp ''list'' tables columns joins conditions a))
   \<and> (tables = []
      \<longrightarrow> construct_sql insp ''list'' tables columns joins conditions a = ''SELECT 1'')"
proof (intro conjI impI)
  assume h: "tables \<noteq> [] \<and> \<not> str_in ''all'' (lower (a_original_query a))"
  then show e: "construct_sql insp ''list'' tables columns joins conditions a
            = statement_body insp ''list'' tables columns joins conditions a @ '' LIMIT 10''"
    by (simp add: construct_sql_def limit_clause_def limited_statement)
  show "endswith (construct_sql insp ''list'' tables columns joins conditions a) '' LIMIT 10''"
    unfolding e endswith_iff by blast
next
  assume "tables \<noteq> [] \<and> str_in ''all'' (lower (a_original_query a))"
  then show "construct_sql insp ''list'' tables columns joins conditions a
            = strip (statement_body insp ''list'' tables columns joins conditions a)"
    by (simp add: construct_sql_def limit_clause_def)
next
  assume "tables \<noteq> [] \<and> ''all'' \<in> set (text_words (a_original_query a))"
  then have "tables \<noteq> []" "str_in ''all'' (lower (a_original_query a))"
    using word_all_occurs by blast+
  then show "construct_sql insp ''list'' tables columns joins conditions a
            = strip (statement_body insp ''list'' tables columns joins conditions a)"
    by (simp add: construct_sql_def limit_clause_def)
next
  assume "tables = []"
  then show "construct_sql insp ''list'' tables columns joins conditions a = ''SELECT 1''"
    by (simp add: construct_sql_def)
qed

theorem list_statement_limit_witness:
  "construct_sql insp_orders_customers ''list'' [''orders''] [''orders.id''] [] []
     (analyze_natural_query insp_orders_customers [] ''show orders'')
     = ''SELECT orders.id FROM orders LIMIT 10''
   \<and> ''all'' \<in> set (text_words ''show all orders'')
   \<and> construct_sql insp_orders_customers ''list'' [''orders''] [''orders.id''] [] []
     (analyze_natural_query insp_orders_customers [] ''show all orders'')
     = ''SELECT orders.id FROM orders''
   \<and> construct_sql insp_orders_customers ''list'' [] [] [] []
     (analyze_natural_query insp_orders_customers [] ''show orders'') = ''SELECT 1''"
proof -
  let ?a = "analyze_natural_query insp_orders_customers [] ''show orders''"
  let ?b = "analyze_natural_query insp_orders_customers [] ''show all orders''"
  have 1: "\<not> str_in ''all'' (lower (a_original_query ?a))"
    unfolding analyze_original_query by code_simp
  have w: "''all'' \<in> set (text_words ''show all orders'')" by code_simp
  have w': "''all'' \<in> set (text_words (a_original_query ?b))"
    unfolding analyze_original_query by (rule w)
  have 3: "statement_body insp_orders_customers ''list'' [''orders''] [''orders.id''] [] [] ?a
             = ''SELECT orders.id FROM orders''" by (rule statement_body_orders_id)
  have t: "strip ''SELECT orders.id FROM orders'' = ''SELECT orders.id FROM orders''"
    by code_simp
  have 4: "strip (statement_body insp_orders_customers ''list'' [''orders''] [''orders.id''] [] [] ?b)
             = ''SELECT orders.id FROM orders''"
    unfolding statement_body_orders_id by (rule t)
  have n: "[''orders''] \<noteq> ([] :: string list)" by simp
  from list_statement_limit[of "[''orders'']" ?a insp_orders_customers "[''orders.id'']" "[]" "[]"]
    1 n
  have a: "construct_sql insp_orders_customers ''list'' [''orders''] [''orders.id''] [] [] ?a
     = statement_body insp_orders_customers ''list'' [''orders''] [''orders.id''] [] [] ?a
       @ '' LIMIT 10''"
    by blast
  from list_statement_limit[of "[''orders'']" ?b insp_orders_customers "[''orders.id'']" "[]" "[]"]
    w' n
  have b: "construct_sql insp_orders_customers ''list'' [''orders''] [''orders.id''] [] [] ?b
     = strip (statement_body insp_orders_customers ''list'' [''orders''] [''orders.id''] [] [] ?b)"
    by blast
  from list_statement_limit[of "[]" ?a insp_orders_customers "[]" "[]" "[]"]
  have c: "construct_sql insp_orders_customers ''list'' [] [] [] [] ?a = ''SELECT 1''"
    by blast
  show ?thesis using a b c w by (simp add: 3 4)
qed

section \<open>Properties of the cache\<close>

lemma update_absent: "k \<notin> fst ` set c \<Longrightarrow> AList.update k v c = c @ [(k, v)]"
  by (induction c) auto

lemma oldest_from_snoc:
  "oldest_from best (ps @ [p]) =
     (if ce_timestamp (snd p) < ce_timestamp (snd (oldest_from best ps)) then p
      else oldest_from best ps)"
  by (induction ps arbitrary: best) simp_all

lemma oldest_from_member: "oldest_from best ps \<in> set (best # ps)"
  by (induction ps arbitrary: best) auto

lemma oldest_from_least:
  "p \<in> set (best # ps) \<Longrightarrow> ce_timestamp (snd (oldest_from best ps)) \<le> ce_timestamp (snd p)"
proof (induction ps arbitrary: best p)
  case Nil
  then show ?case by simp
next
  case (Cons q qs)
  let ?b = "if ce_timestamp (snd q) < ce_timestamp (snd best) then q else best"
  have le: "ce_timestamp (snd (oldest_from ?b qs)) \<le> ce_timestamp (snd ?b)"
    using Cons.IH[of ?b ?b] by simp
  from Cons.prems consider "p = best" | "p = q" | "p \<in> set qs" by auto
  then show ?case
  proof cases
    case 1
    then show ?thesis using le by (auto split: if_splits)
  next
    case 2
    then show ?thesis using le by (auto split: if_splits)
  next
    case 3
    then show ?thesis using Cons.IH[of p ?b] by simp
  qed
qed

text \<open>In a non-empty cache with distinct timestamps the scan finds the entry that is oldest.\<close>

lemma oldest_key_distinct:
  assumes "(ko, eo) \<in> set c"
    and "\<forall>p\<in>set c. ce_timestamp eo \<le> ce_timestamp (snd p)"
    and "distinct (map (\<lambda>p. ce_timestamp (snd p)) c)"
  shows "\<exists>b ps. c = b # ps \<and> oldest_from b ps = (ko, eo)"
proof -
  obtain b ps where c: "c = b # ps" using assms(1) by (cases c) auto
  let ?m = "oldest_from b ps"
  have m: "?m \<in> set c" unfolding c by (rule oldest_from_member)
  have "ce_timestamp (snd ?m) \<le> ce_timestamp eo"
    using oldest_from_least[of "(ko, eo)" b ps] assms(1) c by simp
  moreover have "ce_timestamp eo \<le> ce_timestamp (snd ?m)" using assms(2) m by blast
  ultimately have eq: "(\<lambda>p. ce_timestamp (snd p)) ?m = (\<lambda>p. ce_timestamp (snd p)) (ko, eo)"
    by simp
  have inj: "inj_on (\<lambda>p. ce_timestamp (snd p)) (set c)"
    using assms(3) by (simp add: distinct_map)
  have "?m = (ko, eo)" by (rule inj_onD[OF inj eq m assms(1)])
  then show ?thesis using c by blast
qed

lemma delete_snoc_other:
  "k \<noteq> k' \<Longrightarrow> AList.delete k (c @ [(k', v)]) = AList.delete k c @ [(k', v)]"
  by (simp add: AList.delete_eq)

lemma length_delete_present:
  "distinct (map fst c) \<Longrightarrow> (k, e) \<in> set c \<Longrightarrow> Suc (length (AList.delete k c)) = length c"
proof (induction c)
  case Nil
  then show ?case by simp
next
  case (Cons p ps)
  obtain k' v where p: "p = (k', v)" by (cases p)
  show ?case
  proof (cases "k' = k")
    case True
    then have "k \<notin> fst ` set ps" using Cons.prems(1) p by auto
    then have "AList.delete k ps = ps" by simp
    then show ?thesis using True p by simp
  next
    case False
    then have "(k, e) \<in> set ps" using Cons.prems(2) p by auto
    then show ?thesis using Cons False p by simp
  qed
qed

lemma length_update_present:
  "k \<in> fst ` set c \<Longrightarrow> length (AList.update k v c) = length c"
  by (induction c) auto

lemma cache_query_new_key:
  assumes len: "length c = 100"
    and keys: "distinct (map fst c)"
    and times: "distinct (map (\<lambda>p. ce_timestamp (snd p)) c)"
    and new: "strip (lower q) \<notin> fst ` set c"
    and old: "(ko, eo) \<in> set c" "\<forall>p\<in>set c. ce_timestamp eo \<le> ce_timestamp (snd p)"
    and clock: "ce_timestamp eo \<le> now"
  shows "cache_query c q sql now =
           AList.delete ko c
           @ [(strip (lower q), \<lparr>ce_sql = sql, ce_timestamp = now, ce_success_count = 1\<rparr>)]"
proof -
  let ?k = "strip (lower q)"
  let ?e = "\<lparr>ce_sql = sql, ce_timestamp = now, ce_success_count = 1\<rparr>"
  have none: "map_of c ?k = None" using new by (simp add: map_of_eq_None_iff)
  have c1: "AList.update ?k ?e c = c @ [(?k, ?e)]" using new by (rule update_absent)
  obtain b ps where bps: "c = b # ps" "oldest_from b ps = (ko, eo)"
    using oldest_key_distinct[OF old times] by blast
  have "oldest_from b (ps @ [(?k, ?e)]) = (ko, eo)"
    using bps(2) clock by (simp add: oldest_from_snoc)
  then have ok: "oldest_key (c @ [(?k, ?e)]) = Some ko"
    by (simp add: oldest_key_def bps(1))
  have ne: "ko \<noteq> ?k" using old(1) new by force
  show ?thesis
    using len by (simp add: cache_query_def Let_def none c1 ok delete_snoc_other[OF ne])
qed

lemma cache_query_existing_key:
  assumes len: "length c \<le> 100"
    and present: "map_of c (strip (lower q)) = Some e"
  shows "cache_query c q sql now =
           AList.update (strip (lower q))
             \<lparr>ce_sql = sql, ce_timestamp = now, ce_success_count = ce_success_count e + 1\<rparr> c"
    and "length (cache_query c q sql now) = length c"
    and "fst ` set (cache_query c q sql now) = fst ` set c"
proof -
  let ?k = "strip (lower q)"
  let ?e = "\<lparr>ce_sql = sql, ce_timestamp = now, ce_success_count = ce_success_count e + 1\<rparr>"
  have k: "?k \<in> fst ` set c" using present by (metis map_of_eq_None_iff option.distinct(1))
  have l: "length (AList.update ?k ?e c) = length c"
    using k by (rule length_update_present)
  show 1: "cache_query c q sql now = AList.update ?k ?e c"
    using len l by (simp add: cache_query_def Let_def present)
  show "length (cache_query c q sql now) = length c" using 1 l by simp
  show "fst ` set (cache_query c q sql now) = fst ` set c"
    using 1 k by (auto simp: AList.dom_update)
qed

lemma cache_query_early_clock:
  assumes len: "length c = 100"
    and new: "strip (lower q) \<notin> fst ` set c"
    and early: "\<forall>p\<in>set c. now < ce_timestamp (snd p)"
  shows "cache_query c q sql now = c"
proof -
  let ?k = "strip (lower q)"
  let ?e = "\<lparr>ce_sql = sql, ce_timestamp = now, ce_success_count = 1\<rparr>"
  have none: "map_of c ?k = None" using new by (simp add: map_of_eq_None_iff)
  have c1: "AList.update ?k ?e c = c @ [(?k, ?e)]" using new by (rule update_absent)
  obtain b ps where bps: "c = b # ps" using len by (cases c) auto
  have "oldest_from b ps \<in> set c" unfolding bps by (rule oldest_from_member)
  then have "now < ce_timestamp (snd (oldest_from b ps))" using early by blast
  then have "oldest_from b (ps @ [(?k, ?e)]) = (?k, ?e)" by (simp add: oldest_from_snoc)
  then have ok: "oldest_key (c @ [(?k, ?e)]) = Some ?k" by (simp add: oldest_key_def bps)
  have "AList.delete ?k (c @ [(?k, ?e)]) = c"
    using new by (simp add: AList.delete_eq filter_id_conv) force
  then show ?thesis using len by (simp add: cache_query_def Let_def none c1 ok)
qed


subsection \<open>The full example cache\<close>

lemma cache100_length: "length cache100 = 100"
  by (simp add: cache100_def)

lemma cache100_keys: "distinct (map fst cache100)"
proof -
  have "inj_on (\<lambda>i. replicate i (CHR ''k'')) (set [1..<101])"
    by (rule inj_onI) (metis length_replicate)
  then show ?thesis by (simp add: cache100_def comp_def distinct_map)
qed

lemma cache100_times: "distinct (map (\<lambda>p. ce_timestamp (snd p)) cache100)"
  by (simp add: cache100_def comp_def distinct_map inj_on_def)

lemma cache100_key_set:
  "fst ` set cache100 = (\<lambda>i. replicate i (CHR ''k'')) ` set [1..<101]"
  by (force simp: cache100_def)

lemma cache100_fresh: "strip (lower ''fresh'') \<notin> fst ` set cache100"
proof
  assume "strip (lower ''fresh'') \<in> fst ` set cache100"
  moreover have "strip (lower ''fresh'') = ''fresh''" by code_simp
  ultimately obtain i :: nat where i: "''fresh'' = replicate i (CHR ''k'')"
    unfolding cache100_key_set by auto
  then show False by (cases i) simp_all
qed

lemma cache100_entry:
  assumes "i \<in> set [1..<101]"
  shows "(replicate i (CHR ''k''),
          \<lparr>ce_sql = ''SELECT 1'', ce_timestamp = real i, ce_success_count = 1\<rparr>)
         \<in> set cache100"
  using assms unfolding cache100_def set_map by (rule imageI)

lemma cache100_first:
  "(''k'', \<lparr>ce_sql = ''SELECT 1'', ce_timestamp = 1, ce_success_count = 1\<rparr>) \<in> set cache100"
  using cache100_entry[of 1] by simp

lemma cache100_second:
  "map_of cache100 ''kk''
     = Some \<lparr>ce_sql = ''SELECT 1'', ce_timestamp = 2, ce_success_count = 1\<rparr>"
proof -
  have "(''kk'', \<lparr>ce_sql = ''SELECT 1'', ce_timestamp = 2, ce_success_count = 1\<rparr>)
             \<in> set cache100"
    using cache100_entry[of 2] by (simp add: numeral_2_eq_2)
  then show ?thesis using cache100_keys by (simp add: map_of_eq_Some_iff)
qed

lemma cache100_after_one: "\<forall>p\<in>set cache100. 1 \<le> ce_timestamp (snd p)"
  by (auto simp: cache100_def)

lemma cache100_after_zero: "\<forall>p\<in>set cache100. 0 < ce_timestamp (snd p)"
  by (auto simp: cache100_def)

text \<open>
  Claim C3 as stated fails: the scan for the oldest timestamp runs over the cache with
  the new entry in it. When the clock reads 0 and the hundred stored timestamps are 1
  to 100, the entry just written is the one removed: the cache is what it was, and the
  entry with the oldest stored timestamp is still there.
\<close>

theorem cache_eviction_early_clock:
  "length cache100 = 100
   \<and> distinct (map (\<lambda>p. ce_timestamp (snd p)) cache100)
   \<and> strip (lower ''fresh'') \<notin> fst ` set cache100
   \<and> cache_query cache100 ''fresh'' ''SELECT 2'' 0 = cache100
   \<and> (''k'', \<lparr>ce_sql = ''SELECT 1'', ce_timestamp = 1, ce_success_count = 1\<rparr>)
        \<in> set (cache_query cache100 ''fresh'' ''SELECT 2'' 0)"
  using cache100_length cache100_times cache100_fresh cache100_first
    cache_query_early_clock[OF cache100_length cache100_fresh cache100_after_zero]
  by simp

text \<open>
  Claim C3, amended. For a cache of exactly 100 entries (a dictionary, so its keys are
  distinct) with pairwise distinct timestamps, recording under a key that is not in the cache, at a clock
  reading that is not earlier than the oldest stored timestamp, leaves the cache at 100
  entries: the entry with the oldest stored timestamp is removed and the new entry is
  appended with the counter 1. Recording under a key of the cache overwrites that entry
  with the counter increased by one and removes nothing.
\<close>

theorem cache_eviction_oldest:
  "(length c = 100 \<and> distinct (map fst c)
      \<and> distinct (map (\<lambda>p. ce_timestamp (snd p)) c)
      \<and> strip (lower q) \<notin> fst ` set c
      \<and> (ko, eo) \<in> set c \<and> (\<forall>p\<in>set c. ce_timestamp eo \<le> ce_timestamp (snd p))
      \<and> ce_timestamp eo \<le> now
     \<longrightarrow> cache_query c q sql now
           = AList.delete ko c
             @ [(strip (lower q), \<lparr>ce_sql = sql, ce_timestamp = now, ce_success_count = 1\<rparr>)]
         \<and> length (cache_query c q sql now) = 100
         \<and> ko \<notin> fst ` set (cache_query c q sql now))
   \<and> (length c = 100 \<and> map_of c (strip (lower q)) = Some e
     \<longrightarrow> cache_query c q sql now
           = AList.update (strip (lower q))
               \<lparr>ce_sql = sql, ce_timestamp = now, ce_success_count = ce_success_count e + 1\<rparr> c
         \<and> length (cache_query c q sql now) = 100
         \<and> fst ` set (cache_query c q sql now) = fst ` set c)"
proof (intro conjI impI)
  assume h: "length c = 100 \<and> distinct (map fst c)
      \<and> distinct (map (\<lambda>p. ce_timestamp (snd p)) c)
      \<and> strip (lower q) \<notin> fst ` set c
      \<and> (ko, eo) \<in> set c \<and> (\<forall>p\<in>set c. ce_timestamp eo \<le> ce_timestamp (snd p))
      \<and> ce_timestamp eo \<le> now"
  then show r: "cache_query c q sql now
           = AList.delete ko c
             @ [(strip (lower q), \<lparr>ce_sql = sql, ce_timestamp = now, ce_success_count = 1\<rparr>)]"
    using cache_query_new_key[of c q ko eo now sql] by blast
  have "Suc (length (AList.delete ko c)) = length c"
    using h length_delete_present[of c ko eo] by blast
  then show "length (cache_query c q sql now) = 100" using h r by simp
  have "ko \<noteq> strip (lower q)" using h by force
  then show "ko \<notin> fst ` set (cache_query c q sql now)"
    unfolding r using AList.delete_notin_dom[of ko c] by auto
next
  assume h: "length c = 100 \<and> map_of c (strip (lower q)) = Some e"
  then have l: "length c \<le> 100" and p: "map_of c (strip (lower q)) = Some e" by simp_all
  show "cache_query c q sql now
           = AList.update (strip (lower q))
               \<lparr>ce_sql = sql, ce_timestamp = now, ce_success_count = ce_success_count e + 1\<rparr> c"
    by (rule cache_query_existing_key(1)[OF l p])
  show "length (cache_query c q sql now) = 100"
    using cache_query_existing_key(2)[OF l p] h by simp
  show "fst ` set (cache_query c q sql now) = fst ` set c"
    by (rule cache_query_existing_key(3)[OF l p])
qed

theorem cache_eviction_oldest_witness:
  "cache_query cache100 ''fresh'' ''SELECT 2'' 200
     = AList.delete ''k'' cache100
       @ [(''fresh'', \<lparr>ce_sql = ''SELECT 2'', ce_timestamp = 200, ce_success_count = 1\<rparr>)]
   \<and> length (cache_query cache100 ''fresh'' ''SELECT 2'' 200) = 100
   \<and> ''k'' \<notin> fst ` set (cache_query cache100 ''fresh'' ''SELECT 2'' 200)
   \<and> cache_query cache100 (''KK'' @ [CHR 0xA0]) ''SELECT 2'' 200
     = AList.update ''kk''
         \<lparr>ce_sql = ''SELECT 2'', ce_timestamp = 200, ce_success_count = 2\<rparr> cache100
   \<and> length (cache_query cache100 (''KK'' @ [CHR 0xA0]) ''SELECT 2'' 200) = 100"
proof -
  let ?eo = "\<lparr>ce_sql = ''SELECT 1'', ce_timestamp = 1, ce_success_count = 1\<rparr>"
  let ?e2 = "\<lparr>ce_sql = ''SELECT 1'', ce_timestamp = 2, ce_success_count = 1\<rparr>"
  have k: "strip (lower ''fresh'') = ''fresh''" by code_simp
  have k2: "strip (lower (''KK'' @ [CHR 0xA0])) = ''kk''" by code_simp
  have h1: "length cache100 = 100 \<and> distinct (map fst cache100)
      \<and> distinct (map (\<lambda>p. ce_timestamp (snd p)) cache100)
      \<and> strip (lower ''fresh'') \<notin> fst ` set cache100
      \<and> (''k'', ?eo) \<in> set cache100
      \<and> (\<forall>p\<in>set cache100. ce_timestamp ?eo \<le> ce_timestamp (snd p))
      \<and> ce_timestamp ?eo \<le> 200"
    using cache100_length cache100_keys cache100_times cache100_fresh cache100_first
      cache100_after_one by simp
  have h2: "length cache100 = 100 \<and> map_of cache100 (strip (lower (''KK'' @ [CHR 0xA0]))) = Some ?e2"
    unfolding k2 using cache100_length cache100_second by simp
  have a: "cache_query cache100 ''fresh'' ''SELECT 2'' 200
           = AList.delete ''k'' cache100
             @ [(strip (lower ''fresh''),
                 \<lparr>ce_sql = ''SELECT 2'', ce_timestamp = 200, ce_success_count = 1\<rparr>)]
         \<and> length (cache_query cache100 ''fresh'' ''SELECT 2'' 200) = 100
         \<and> ''k'' \<notin> fst ` set (cache_query cache100 ''fresh'' ''SELECT 2'' 200)"
    using h1 cache_eviction_oldest[of cache100 "''fresh''" "''k''" ?eo 200 "''SELECT 2''"]
    by blast
  have b: "cache_query cache100 (''KK'' @ [CHR 0xA0]) ''SELECT 2'' 200
           = AList.update (strip (lower (''KK'' @ [CHR 0xA0])))
               \<lparr>ce_sql = ''SELECT 2'', ce_timestamp = 200,
                 ce_success_count = ce_success_count ?e2 + 1\<rparr> cache100
         \<and> length (cache_query cache100 (''KK'' @ [CHR 0xA0]) ''SELECT 2'' 200) = 100"
    using h2 cache_eviction_oldest[of cache100 "''KK'' @ [CHR 0xA0]" _ _ 200 "''SELECT 2''" ?e2]
    by blast
  have n: "ce_success_count ?e2 + 1 = 2" by simp
  show ?thesis using a[unfolded k] b[unfolded k2 n] by blast
qed

end
